theory Spec2Isabelle
  imports Main "HOL-Library.Word"
begin

unbundle bit_operations_syntax

section \<open>The hash table of \<^verbatim>\<open>src/runtime/map.go\<close>\<close>

text \<open>
  The development follows \<^verbatim>\<open>map.go\<close> function by function, for a 64-bit platform
  (\<^verbatim>\<open>sys.PtrSize = 8\<close>: \<^verbatim>\<open>uintptr\<close> and \<^verbatim>\<open>int\<close> are 64-bit words), with the race detector
  and the memory sanitizer switched off (\<^verbatim>\<open>raceenabled = msanenabled = false\<close>).

  Memory is an explicit store from addresses to buckets. Addresses are natural numbers,
  \<open>0\<close> is \<^verbatim>\<open>nil\<close>, and \<^verbatim>\<open>add(p, i*uintptr(t.bucketsize))\<close> is \<open>p + i * bucketsize\<close>.
  A cell of a bucket is addressed by the bucket's address and the cell's index; a key or
  element slot is modelled by the key or element it designates, whether the type
  descriptor stores it inline or behind a pointer.

  A result is \<open>None\<close> when a loop of the source does not terminate, and
  otherwise carries either an error (a \<^verbatim>\<open>throw\<close>, a \<^verbatim>\<open>panic\<close>, or the panic of the
  type's hash function) or a value, next to the state the call leaves behind.
\<close>

subsection \<open>Constants\<close>

type_synonym uintptr = "64 word"
type_synonym uint8 = "8 word"
type_synonym uint16 = "16 word"
type_synonym uint32 = "32 word"

definition bucketCntBits :: nat where "bucketCntBits = 3"
definition bucketCnt :: nat where "bucketCnt = 2 ^ bucketCntBits"

definition loadFactorNum :: uintptr where "loadFactorNum = 13"
definition loadFactorDen :: uintptr where "loadFactorDen = 2"

definition emptyRest :: uint8 where "emptyRest = 0"
definition emptyOne :: uint8 where "emptyOne = 1"
definition evacuatedX :: uint8 where "evacuatedX = 2"
definition evacuatedY :: uint8 where "evacuatedY = 3"
definition evacuatedEmpty :: uint8 where "evacuatedEmpty = 4"
definition minTopHash :: uint8 where "minTopHash = 5"

definition iterator :: uint8 where "iterator = 1"
definition oldIterator :: uint8 where "oldIterator = 2"
definition hashWriting :: uint8 where "hashWriting = 4"
definition sameSizeGrow :: uint8 where "sameSizeGrow = 8"

definition noCheck :: uintptr where "noCheck = 2 ^ 64 - 1"

definition maxZero :: nat where "maxZero = 1024"

subsection \<open>Errors and pointers\<close>

datatype error =
    Throw string      \<comment> \<open>\<^verbatim>\<open>throw(msg)\<close>: fatal, the process aborts\<close>
  | Panic string      \<comment> \<open>\<^verbatim>\<open>panic(plainError(msg))\<close>\<close>
  | HashPanic         \<comment> \<open>the panic raised inside \<^verbatim>\<open>t.hasher\<close>\<close>
  | Fault             \<comment> \<open>a read through \<^verbatim>\<open>nil\<close>\<close>

datatype ptr =
    Nil
  | ZeroVal           \<comment> \<open>\<^verbatim>\<open>unsafe.Pointer(&zeroVal[0])\<close>\<close>
  | KeyAt nat nat     \<comment> \<open>the key of cell \<open>i\<close> of the bucket at address \<open>b\<close>\<close>
  | ElemAt nat nat    \<comment> \<open>the element of cell \<open>i\<close> of the bucket at address \<open>b\<close>\<close>

text \<open>\<^verbatim>\<open>var zeroVal [maxZero]byte\<close>: never written, so every byte is zero.\<close>

definition zeroVal :: "uint8 list" where "zeroVal = replicate maxZero 0"

subsection \<open>Type descriptor, buckets, header\<close>

text \<open>
  \<^verbatim>\<open>maptype\<close> is declared outside this file; the record holds the fields and the flag
  methods the hash table reads. \<open>hasher\<close> returns \<open>None\<close> where the hash function panics.
  \<open>key_zero\<close> and \<open>elem_zero\<close> are what zeroed memory reads as at the key and element type.
\<close>

record ('k, 'v) maptype =
  hasher :: "'k \<Rightarrow> uintptr \<Rightarrow> uintptr option"
  key_equal :: "'k \<Rightarrow> 'k \<Rightarrow> bool"
  bucket_size :: uintptr
  bucket_ptrdata :: uintptr
  key_ptrdata :: uintptr
  elem_ptrdata :: uintptr
  bucketsize :: uint16
  indirectkey :: bool
  indirectelem :: bool
  reflexivekey :: bool
  needkeyupdate :: bool
  hashMightPanic :: bool
  key_zero :: 'k
  elem_zero :: 'v

record ('k, 'v) bmap =
  topbits :: "nat \<Rightarrow> uint8"
  keys :: "nat \<Rightarrow> 'k"
  elems :: "nat \<Rightarrow> 'v"
  overflow_ptr :: nat

record mapextra =
  extra_overflow :: "nat list option"
  extra_oldoverflow :: "nat list option"
  nextOverflow :: nat

text \<open>
  The runtime the map lives in: the bucket store, the allocation frontier, the stream
  \<^verbatim>\<open>fastrand()\<close> draws from, and the allocator's \<^verbatim>\<open>roundupsize\<close> and \<^verbatim>\<open>maxAlloc\<close>
  (both declared outside this file).
\<close>

record ('k, 'v) heap =
  mem :: "nat \<Rightarrow> ('k, 'v) bmap"
  brk :: nat
  rnd :: "nat \<Rightarrow> uint32"
  rnd_pos :: nat
  roundupsize :: "uintptr \<Rightarrow> uintptr"
  maxAlloc :: uintptr

record ('k, 'v) hmap = "('k, 'v) heap" +
  count :: "64 word"
  flags :: uint8
  B :: uint8
  noverflow :: uint16
  hash0 :: uint32
  buckets :: nat
  oldbuckets :: nat
  nevacuate :: uintptr
  extra :: "mapextra option"

record evacDst =
  dst_b :: nat
  dst_i :: nat

record hiter =
  it_key :: ptr
  it_elem :: ptr
  it_buckets :: nat
  it_bptr :: nat
  it_overflow :: "nat list option"
  it_oldoverflow :: "nat list option"
  it_startBucket :: uintptr
  it_offset :: uint8
  it_wrapped :: bool
  it_B :: uint8
  it_i :: uint8
  it_bucket :: uintptr
  it_checkBucket :: uintptr

subsection \<open>Memory primitives\<close>

definition zero_bmap :: "('k, 'v) maptype \<Rightarrow> ('k, 'v) bmap" where
  "zero_bmap t = \<lparr>topbits = (\<lambda>_. 0), keys = (\<lambda>_. key_zero t), elems = (\<lambda>_. elem_zero t),
     overflow_ptr = 0\<rparr>"

definition stride :: "('k, 'v) maptype \<Rightarrow> nat" where
  "stride t = unat (bucketsize t)"

text \<open>\<^verbatim>\<open>new(hmap)\<close>: a zeroed header.\<close>

definition new_hmap :: "('k, 'v) heap \<Rightarrow> ('k, 'v) hmap" where
  "new_hmap s = heap.extend s
     \<lparr>count = 0, flags = 0, B = 0, noverflow = 0, hash0 = 0, buckets = 0, oldbuckets = 0,
      nevacuate = 0, extra = None\<rparr>"

definition new_mapextra :: mapextra where
  "new_mapextra = \<lparr>extra_overflow = None, extra_oldoverflow = None, nextOverflow = 0\<rparr>"

definition fastrand :: "('k, 'v) hmap \<Rightarrow> uint32 \<times> ('k, 'v) hmap" where
  "fastrand h = (rnd h (rnd_pos h), h\<lparr>rnd_pos := rnd_pos h + 1\<rparr>)"

text \<open>\<^verbatim>\<open>newobject(t.bucket)\<close> and \<^verbatim>\<open>newarray(t.bucket, n)\<close>: zeroed memory at the frontier.\<close>

definition newobject :: "('k, 'v) maptype \<Rightarrow> ('k, 'v) hmap \<Rightarrow> nat \<times> ('k, 'v) hmap" where
  "newobject t h =
     (brk h, h\<lparr>mem := (mem h)(brk h := zero_bmap t), brk := brk h + unat (bucket_size t)\<rparr>)"

definition memclr :: "('k, 'v) maptype \<Rightarrow> nat \<Rightarrow> nat \<Rightarrow> ('k, 'v) hmap \<Rightarrow> ('k, 'v) hmap" where
  "memclr t p n h = h\<lparr>mem := (\<lambda>a. if p \<le> a \<and> a < p + n then zero_bmap t else mem h a)\<rparr>"

definition newarray :: "('k, 'v) maptype \<Rightarrow> nat \<Rightarrow> ('k, 'v) hmap \<Rightarrow> nat \<times> ('k, 'v) hmap" where
  "newarray t n h =
     (let p = brk h; sz = n * unat (bucket_size t)
      in (p, (memclr t p sz h)\<lparr>brk := p + sz\<rparr>))"

definition overflow :: "('k, 'v) hmap \<Rightarrow> nat \<Rightarrow> nat" where
  "overflow h b = overflow_ptr (mem h b)"

definition setoverflow :: "nat \<Rightarrow> nat \<Rightarrow> ('k, 'v) hmap \<Rightarrow> ('k, 'v) hmap" where
  "setoverflow b ovf h = h\<lparr>mem := (mem h)(b := (mem h b)\<lparr>overflow_ptr := ovf\<rparr>)\<rparr>"

definition set_tophash :: "nat \<Rightarrow> nat \<Rightarrow> uint8 \<Rightarrow> ('k, 'v) hmap \<Rightarrow> ('k, 'v) hmap" where
  "set_tophash b i x h =
     h\<lparr>mem := (mem h)(b := (mem h b)\<lparr>topbits := (topbits (mem h b))(i := x)\<rparr>)\<rparr>"

definition set_key :: "nat \<Rightarrow> nat \<Rightarrow> 'k \<Rightarrow> ('k, 'v) hmap \<Rightarrow> ('k, 'v) hmap" where
  "set_key b i k h = h\<lparr>mem := (mem h)(b := (mem h b)\<lparr>keys := (keys (mem h b))(i := k)\<rparr>)\<rparr>"

definition set_elem :: "nat \<Rightarrow> nat \<Rightarrow> 'v \<Rightarrow> ('k, 'v) hmap \<Rightarrow> ('k, 'v) hmap" where
  "set_elem b i v h = h\<lparr>mem := (mem h)(b := (mem h b)\<lparr>elems := (elems (mem h b))(i := v)\<rparr>)\<rparr>"

text \<open>What a caller reads through a pointer the map returned.\<close>

definition deref :: "('k, 'v) maptype \<Rightarrow> ('k, 'v) hmap \<Rightarrow> ptr \<Rightarrow> 'v option" where
  "deref t h p = (case p of ElemAt b i \<Rightarrow> Some (elems (mem h b) i)
                          | ZeroVal \<Rightarrow> Some (elem_zero t)
                          | _ \<Rightarrow> None)"

subsection \<open>Small helpers of the source\<close>

definition isEmpty :: "uint8 \<Rightarrow> bool" where
  "isEmpty x = (x \<le> emptyOne)"

definition bucketShift :: "uint8 \<Rightarrow> uintptr" where
  "bucketShift b = push_bit (unat (b AND 63)) 1"

definition bucketMask :: "uint8 \<Rightarrow> uintptr" where
  "bucketMask b = bucketShift b - 1"

definition tophash :: "uintptr \<Rightarrow> uint8" where
  "tophash hash =
     (let tp = (ucast (drop_bit 56 hash) :: uint8)
      in if tp < minTopHash then tp + minTopHash else tp)"

definition evacuated :: "('k, 'v) bmap \<Rightarrow> bool" where
  "evacuated b = (let x = topbits b 0 in x > emptyOne \<and> x < minTopHash)"

definition overLoadFactor :: "64 word \<Rightarrow> uint8 \<Rightarrow> bool" where
  "overLoadFactor n b =
     (of_nat bucketCnt <s n \<and> n > loadFactorNum * (bucketShift b div loadFactorDen))"

definition tooManyOverflowBuckets :: "uint16 \<Rightarrow> uint8 \<Rightarrow> bool" where
  "tooManyOverflowBuckets nov b =
     (let b' = (if b > 15 then 15 else b)
      in nov \<ge> push_bit (unat (b' AND 15)) 1)"

definition growing :: "('k, 'v) hmap \<Rightarrow> bool" where
  "growing h = (oldbuckets h \<noteq> 0)"

definition is_sameSizeGrow :: "('k, 'v) hmap \<Rightarrow> bool" where
  "is_sameSizeGrow h = (flags h AND sameSizeGrow \<noteq> 0)"

definition noldbuckets :: "('k, 'v) hmap \<Rightarrow> uintptr" where
  "noldbuckets h =
     (let oldB = B h; oldB = (if \<not> is_sameSizeGrow h then oldB - 1 else oldB)
      in bucketShift oldB)"

definition oldbucketmask :: "('k, 'v) hmap \<Rightarrow> uintptr" where
  "oldbucketmask h = noldbuckets h - 1"

definition bucketEvacuated :: "('k, 'v) maptype \<Rightarrow> ('k, 'v) hmap \<Rightarrow> uintptr \<Rightarrow> bool" where
  "bucketEvacuated t h bucket = evacuated (mem h (oldbuckets h + unat bucket * stride t))"

subsection \<open>Overflow buckets\<close>

definition incrnoverflow :: "('k, 'v) hmap \<Rightarrow> ('k, 'v) hmap" where
  "incrnoverflow h =
     (if B h < 16 then h\<lparr>noverflow := noverflow h + 1\<rparr>
      else
        let mask = (push_bit (unat (B h - 15)) 1 :: uint32) - 1;
            (r, h') = fastrand h
        in if r AND mask = 0 then h'\<lparr>noverflow := noverflow h' + 1\<rparr> else h')"

definition createOverflow :: "('k, 'v) hmap \<Rightarrow> ('k, 'v) hmap" where
  "createOverflow h =
     (let x = (case extra h of None \<Rightarrow> new_mapextra | Some x \<Rightarrow> x);
          x = (case extra_overflow x of None \<Rightarrow> x\<lparr>extra_overflow := Some []\<rparr> | Some _ \<Rightarrow> x)
      in h\<lparr>extra := Some x\<rparr>)"

definition newoverflow ::
  "('k, 'v) maptype \<Rightarrow> nat \<Rightarrow> ('k, 'v) hmap \<Rightarrow> nat \<times> ('k, 'v) hmap" where
  "newoverflow t b h =
     (let (ovf, h) =
        (case extra h of
           Some x \<Rightarrow>
             if nextOverflow x \<noteq> 0 then
               (let ovf = nextOverflow x
                in if overflow h ovf = 0
                   then (ovf, h\<lparr>extra := Some (x\<lparr>nextOverflow := ovf + stride t\<rparr>)\<rparr>)
                   else (ovf, (setoverflow ovf 0 h)\<lparr>extra := Some (x\<lparr>nextOverflow := 0\<rparr>)\<rparr>))
             else newobject t h
         | None \<Rightarrow> newobject t h);
          h = incrnoverflow h;
          h = (if bucket_ptrdata t = 0
               then (let h = createOverflow h
                     in h\<lparr>extra := map_option
                          (\<lambda>x. x\<lparr>extra_overflow := map_option (\<lambda>l. l @ [ovf]) (extra_overflow x)\<rparr>)
                          (extra h)\<rparr>)
               else h);
          h = setoverflow b ovf h
      in (ovf, h))"

subsection \<open>Creation\<close>

text \<open>\<^verbatim>\<open>math.MulUintptr\<close> (declared outside this file): the product and whether it overflows.\<close>

definition MulUintptr :: "uintptr \<Rightarrow> uintptr \<Rightarrow> uintptr \<times> bool" where
  "MulUintptr a b = (a * b, unat a * unat b \<ge> 2 ^ 64)"

text \<open>
  The number of buckets \<^verbatim>\<open>makeBucketArray\<close> allocates for \<open>2 ^ b\<close> main buckets: its
  statements up to \<^verbatim>\<open>if dirtyalloc == nil\<close>. The division is by \<^verbatim>\<open>t.bucket.size\<close>, and
  panics when that is zero.
\<close>

definition makeBucketArray_nbuckets ::
  "('k, 'v) maptype \<Rightarrow> uint8 \<Rightarrow> ('k, 'v) hmap \<Rightarrow> error + uintptr" where
  "makeBucketArray_nbuckets t b h =
     (let base = bucketShift b
      in if b \<ge> 4 then
           (let nb = base + bucketShift (b - 4);
                sz = bucket_size t * nb;
                up = roundupsize h sz
            in if up \<noteq> sz
               then (if bucket_size t = 0 then Inl (Panic ''integer divide by zero'')
                     else Inr (up div bucket_size t))
               else Inr nb)
         else Inr base)"

definition makeBucketArray ::
  "('k, 'v) maptype \<Rightarrow> uint8 \<Rightarrow> nat \<Rightarrow> ('k, 'v) hmap \<Rightarrow> (error + nat \<times> nat) \<times> ('k, 'v) hmap" where
  "makeBucketArray t b dirtyalloc h =
     (let base = bucketShift b
      in case makeBucketArray_nbuckets t b h of
           Inl e \<Rightarrow> (Inl e, h)
         | Inr nbuckets \<Rightarrow>
             (let (bkts, h) =
                (if dirtyalloc = 0 then newarray t (unat nbuckets) h
                 else (dirtyalloc, memclr t dirtyalloc (unat (bucket_size t * nbuckets)) h))
              in if base \<noteq> nbuckets
                 then (let nextOvf = bkts + unat base * stride t;
                           last = bkts + unat (nbuckets - 1) * stride t
                       in (Inr (bkts, nextOvf), setoverflow last bkts h))
                 else (Inr (bkts, 0), h)))"

text \<open>
  The loop \<^verbatim>\<open>for overLoadFactor(hint, B) { B++ }\<close> of \<^verbatim>\<open>makemap\<close>. \<^verbatim>\<open>B\<close> is a
  \<^verbatim>\<open>uint8\<close> and \<^verbatim>\<open>bucketShift\<close> masks its argument, so the loop is shown to end: the
  load factor cannot be exceeded at a shift of 61 or 62, where \<open>13 * 2 ^ 60\<close> and
  \<open>13 * 2 ^ 61 mod 2 ^ 64\<close> are above every positive \<^verbatim>\<open>int\<close>.
\<close>

function makemap_B :: "64 word \<Rightarrow> uint8 \<Rightarrow> uint8" where
  "makemap_B hint b = (if overLoadFactor hint b then makemap_B hint (b + 1) else b)"
  by pat_completeness auto

definition makemap_B_measure :: "uint8 \<Rightarrow> nat" where
  "makemap_B_measure b = (let k = unat b mod 64 in if k \<le> 61 then 61 - k else 125 - k)"



text \<open>The size hint \<^verbatim>\<open>makemap\<close> goes on with, after its first three lines.\<close>

definition makemap_hint :: "('k, 'v) maptype \<Rightarrow> 64 word \<Rightarrow> uintptr \<Rightarrow> 64 word" where
  "makemap_hint t hint maxalloc =
     (let (m, ovf) = MulUintptr hint (bucket_size t)
      in if ovf \<or> m > maxalloc then 0 else hint)"

definition makemap ::
  "('k, 'v) maptype \<Rightarrow> 64 word \<Rightarrow> ('k, 'v) hmap option \<Rightarrow> ('k, 'v) heap \<Rightarrow>
     (error + unit) \<times> ('k, 'v) hmap" where
  "makemap t hint hopt s =
     (let h = (case hopt of None \<Rightarrow> new_hmap s | Some h \<Rightarrow> h);
          hint = makemap_hint t hint (maxAlloc h);
          (r, h) = fastrand h;
          h = h\<lparr>hash0 := r\<rparr>;
          b = makemap_B hint 0;
          h = h\<lparr>B := b\<rparr>
      in if B h \<noteq> 0 then
           (case makeBucketArray t (B h) 0 h of
              (Inl e, h) \<Rightarrow> (Inl e, h)
            | (Inr (bkts, nextOvf), h) \<Rightarrow>
                (let h = h\<lparr>buckets := bkts\<rparr>
                 in if nextOvf \<noteq> 0
                    then (Inr (), h\<lparr>extra := Some (new_mapextra\<lparr>nextOverflow := nextOvf\<rparr>)\<rparr>)
                    else (Inr (), h)))
         else (Inr (), h))"

text \<open>
  The first statement of \<^verbatim>\<open>makemap64\<close>, \<^verbatim>\<open>if int64(int(hint)) != hint { hint = 0 }\<close>, on
  a platform whose \<^verbatim>\<open>int\<close> has the width of \<open>'i\<close>: the two conversions are the truncating
  and the sign-extending cast.
\<close>

definition makemap64_hint :: "'i::len itself \<Rightarrow> 64 word \<Rightarrow> 64 word" where
  "makemap64_hint i hint = (if (scast (scast hint :: 'i word) :: 64 word) \<noteq> hint then 0 else hint)"

text \<open>\<^verbatim>\<open>makemap64\<close> on this platform, where \<^verbatim>\<open>int\<close> is the 64-bit word.\<close>

definition makemap64 ::
  "('k, 'v) maptype \<Rightarrow> 64 word \<Rightarrow> ('k, 'v) hmap option \<Rightarrow> ('k, 'v) heap \<Rightarrow>
     (error + unit) \<times> ('k, 'v) hmap" where
  "makemap64 t hint hopt s = makemap t (makemap64_hint TYPE(64) hint) hopt s"

definition makemap_small :: "('k, 'v) heap \<Rightarrow> ('k, 'v) hmap" where
  "makemap_small s = (let h = new_hmap s; (r, h) = fastrand h in h\<lparr>hash0 := r\<rparr>)"

subsection \<open>Lookup\<close>

datatype cells = Found nat | Stop | Cont

text \<open>
  The inner loop over the cells of one bucket, as \<^verbatim>\<open>mapaccess1\<close>, \<^verbatim>\<open>mapaccess2\<close>,
  \<^verbatim>\<open>mapaccessK\<close> and the search of \<^verbatim>\<open>mapdelete\<close> each write it out.
\<close>

function search_cells ::
  "('k, 'v) maptype \<Rightarrow> 'k \<Rightarrow> uint8 \<Rightarrow> ('k, 'v) bmap \<Rightarrow> nat \<Rightarrow> cells" where
  "search_cells t key tp b i =
     (if i < bucketCnt then
        (if topbits b i \<noteq> tp then
           (if topbits b i = emptyRest then Stop else search_cells t key tp b (i + 1))
         else if key_equal t key (keys b i) then Found i
         else search_cells t key tp b (i + 1))
      else Cont)"
  by pat_completeness auto
termination
  by (relation "measure (\<lambda>(t, key, tp, b, i). bucketCnt - i)") auto

text \<open>The outer loop \<^verbatim>\<open>for ; b != nil; b = b.overflow(t)\<close>.\<close>

partial_function (option) bucketloop ::
  "('k, 'v) maptype \<Rightarrow> ('k, 'v) hmap \<Rightarrow> 'k \<Rightarrow> uint8 \<Rightarrow> nat \<Rightarrow> (nat \<times> nat) option option" where
  "bucketloop t h key tp b =
     (if b = 0 then Some None
      else case search_cells t key tp (mem h b) 0 of
             Found i \<Rightarrow> Some (Some (b, i))
           | Stop \<Rightarrow> Some None
           | Cont \<Rightarrow> bucketloop t h key tp (overflow h b))"

declare bucketloop.simps [code]

text \<open>The bucket a lookup starts from: the old one while it is not evacuated.\<close>

definition lookup_bucket :: "('k, 'v) maptype \<Rightarrow> ('k, 'v) hmap \<Rightarrow> uintptr \<Rightarrow> nat" where
  "lookup_bucket t h hash =
     (let m = bucketMask (B h);
          b = buckets h + unat (hash AND m) * stride t
      in if oldbuckets h \<noteq> 0 then
           (let m = (if \<not> is_sameSizeGrow h then drop_bit 1 m else m);
                oldb = oldbuckets h + unat (hash AND m) * stride t
            in if \<not> evacuated (mem h oldb) then oldb else b)
         else b)"

definition mapaccess1 ::
  "('k, 'v) maptype \<Rightarrow> ('k, 'v) hmap option \<Rightarrow> 'k \<Rightarrow> (error + ptr) option" where
  "mapaccess1 t hopt key =
     (case (case hopt of None \<Rightarrow> None | Some h \<Rightarrow> if count h = 0 then None else Some h) of
        None \<Rightarrow>
          (if hashMightPanic t then
             (case hasher t key 0 of None \<Rightarrow> Some (Inl HashPanic) | Some _ \<Rightarrow> Some (Inr ZeroVal))
           else Some (Inr ZeroVal))
      | Some h \<Rightarrow>
          if flags h AND hashWriting \<noteq> 0
          then Some (Inl (Throw ''concurrent map read and map write''))
          else case hasher t key (ucast (hash0 h)) of
                 None \<Rightarrow> Some (Inl HashPanic)
               | Some hash \<Rightarrow>
                   map_option
                     (\<lambda>r. case r of None \<Rightarrow> Inr ZeroVal | Some (b, i) \<Rightarrow> Inr (ElemAt b i))
                     (bucketloop t h key (tophash hash) (lookup_bucket t h hash)))"

definition mapaccess2 ::
  "('k, 'v) maptype \<Rightarrow> ('k, 'v) hmap option \<Rightarrow> 'k \<Rightarrow> (error + ptr \<times> bool) option" where
  "mapaccess2 t hopt key =
     (case (case hopt of None \<Rightarrow> None | Some h \<Rightarrow> if count h = 0 then None else Some h) of
        None \<Rightarrow>
          (if hashMightPanic t then
             (case hasher t key 0 of None \<Rightarrow> Some (Inl HashPanic)
                                   | Some _ \<Rightarrow> Some (Inr (ZeroVal, False)))
           else Some (Inr (ZeroVal, False)))
      | Some h \<Rightarrow>
          if flags h AND hashWriting \<noteq> 0
          then Some (Inl (Throw ''concurrent map read and map write''))
          else case hasher t key (ucast (hash0 h)) of
                 None \<Rightarrow> Some (Inl HashPanic)
               | Some hash \<Rightarrow>
                   map_option
                     (\<lambda>r. case r of None \<Rightarrow> Inr (ZeroVal, False)
                                  | Some (b, i) \<Rightarrow> Inr (ElemAt b i, True))
                     (bucketloop t h key (tophash hash) (lookup_bucket t h hash)))"

definition mapaccessK ::
  "('k, 'v) maptype \<Rightarrow> ('k, 'v) hmap option \<Rightarrow> 'k \<Rightarrow> (error + ptr \<times> ptr) option" where
  "mapaccessK t hopt key =
     (case (case hopt of None \<Rightarrow> None | Some h \<Rightarrow> if count h = 0 then None else Some h) of
        None \<Rightarrow> Some (Inr (Nil, Nil))
      | Some h \<Rightarrow>
          (case hasher t key (ucast (hash0 h)) of
             None \<Rightarrow> Some (Inl HashPanic)
           | Some hash \<Rightarrow>
               map_option
                 (\<lambda>r. case r of None \<Rightarrow> Inr (Nil, Nil)
                              | Some (b, i) \<Rightarrow> Inr (KeyAt b i, ElemAt b i))
                 (bucketloop t h key (tophash hash) (lookup_bucket t h hash))))"

subsection \<open>Growing and evacuation\<close>

definition hashGrow ::
  "('k, 'v) maptype \<Rightarrow> ('k, 'v) hmap \<Rightarrow> (error + unit) \<times> ('k, 'v) hmap" where
  "hashGrow t h =
     (let (bigger, h) =
            (if \<not> overLoadFactor (count h + 1) (B h)
             then (0, h\<lparr>flags := flags h OR sameSizeGrow\<rparr>) else (1 :: uint8, h));
          oldbkts = buckets h
      in case makeBucketArray t (B h + bigger) 0 h of
           (Inl e, h) \<Rightarrow> (Inl e, h)
         | (Inr (newbuckets, nextOvf), h) \<Rightarrow>
             (let fl = flags h AND NOT (iterator OR oldIterator);
                  fl = (if flags h AND iterator \<noteq> 0 then fl OR oldIterator else fl);
                  h = h\<lparr>B := B h + bigger, flags := fl, oldbuckets := oldbkts,
                        buckets := newbuckets, nevacuate := 0, noverflow := 0\<rparr>;
                  r = (case extra h of
                         Some x \<Rightarrow>
                           if extra_overflow x \<noteq> None then
                             (if extra_oldoverflow x \<noteq> None
                              then (Inl (Throw ''oldoverflow is not nil''), h)
                              else (Inr (), h\<lparr>extra := Some (x\<lparr>extra_oldoverflow := extra_overflow x,
                                                                extra_overflow := None\<rparr>)\<rparr>))
                           else (Inr (), h)
                       | None \<Rightarrow> (Inr (), h))
              in case r of
                   (Inl e, h) \<Rightarrow> (Inl e, h)
                 | (Inr u, h) \<Rightarrow>
                     if nextOvf \<noteq> 0 then
                       (let x = (case extra h of None \<Rightarrow> new_mapextra | Some x \<Rightarrow> x)
                        in (Inr (), h\<lparr>extra := Some (x\<lparr>nextOverflow := nextOvf\<rparr>)\<rparr>))
                     else (Inr (), h)))"

text \<open>
  The evacuation decision of \<^verbatim>\<open>evacuate\<close> for an occupied cell with key \<open>k2\<close> and
  tophash \<open>tp\<close>: \<^verbatim>\<open>useY\<close> and the tophash the entry gets in its destination, or
  \<open>None\<close> where the hash function panics.
\<close>

definition evacuate_dest ::
  "('k, 'v) maptype \<Rightarrow> ('k, 'v) hmap \<Rightarrow> uintptr \<Rightarrow> 'k \<Rightarrow> uint8 \<Rightarrow> (uint8 \<times> uint8) option" where
  "evacuate_dest t h newbit k2 tp =
     (if \<not> is_sameSizeGrow h then
        (case hasher t k2 (ucast (hash0 h)) of
           None \<Rightarrow> None
         | Some hash \<Rightarrow>
             if flags h AND iterator \<noteq> 0 \<and> \<not> reflexivekey t \<and> \<not> key_equal t k2 k2
             then Some (tp AND 1, tophash hash)
             else Some (if hash AND newbit \<noteq> 0 then 1 else 0, tp))
      else Some (0, tp))"

text \<open>
  The body of the inner loop of \<^verbatim>\<open>evacuate\<close> for the cell \<open>i\<close> of the old bucket at
  \<open>b\<close>. \<open>x\<close> and \<open>y\<close> are \<^verbatim>\<open>xy[0]\<close> and \<^verbatim>\<open>xy[1]\<close>; the pointers \<^verbatim>\<open>dst.k\<close> and
  \<^verbatim>\<open>dst.e\<close> are the key and element slots \<^verbatim>\<open>dst.i\<close> of \<^verbatim>\<open>dst.b\<close>, and
  \<^verbatim>\<open>dst.i&(bucketCnt-1)\<close> is \<open>dst_i mod bucketCnt\<close>.
\<close>

definition evacuate_cell ::
  "('k, 'v) maptype \<Rightarrow> uintptr \<Rightarrow> nat \<Rightarrow> nat \<Rightarrow> evacDst \<Rightarrow> evacDst \<Rightarrow> ('k, 'v) hmap \<Rightarrow>
     (error + evacDst \<times> evacDst) \<times> ('k, 'v) hmap" where
  "evacuate_cell t newbit b i x y h =
     (let tp = topbits (mem h b) i
      in if isEmpty tp then (Inr (x, y), set_tophash b i evacuatedEmpty h)
         else if tp < minTopHash then (Inl (Throw ''bad map state''), h)
         else
           (let k2 = keys (mem h b) i
            in case evacuate_dest t h newbit k2 tp of
                 None \<Rightarrow> (Inl HashPanic, h)
               | Some (useY, tp) \<Rightarrow>
                   if evacuatedX + 1 \<noteq> evacuatedY \<or> evacuatedX XOR 1 \<noteq> evacuatedY
                   then (Inl (Throw ''bad evacuatedN''), h)
                   else
                     (let h = set_tophash b i (evacuatedX + useY) h;
                          dst = (if useY = 0 then x else y);
                          (dst, h) = (if dst_i dst = bucketCnt
                                      then (let (nb, h) = newoverflow t (dst_b dst) h
                                            in (\<lparr>dst_b = nb, dst_i = 0\<rparr>, h))
                                      else (dst, h));
                          h = set_tophash (dst_b dst) (dst_i dst mod bucketCnt) tp h;
                          h = set_key (dst_b dst) (dst_i dst)
                                (if indirectkey t then k2 else keys (mem h b) i) h;
                          h = set_elem (dst_b dst) (dst_i dst) (elems (mem h b) i) h;
                          dst = dst\<lparr>dst_i := dst_i dst + 1\<rparr>
                      in if useY = 0 then (Inr (dst, y), h) else (Inr (x, dst), h))))"

text \<open>The inner loop \<^verbatim>\<open>for i := 0; i < bucketCnt; i++\<close> of \<^verbatim>\<open>evacuate\<close>, from \<open>i\<close> on.\<close>

function evacuate_cells ::
  "('k, 'v) maptype \<Rightarrow> uintptr \<Rightarrow> nat \<Rightarrow> nat \<Rightarrow> evacDst \<Rightarrow> evacDst \<Rightarrow> ('k, 'v) hmap \<Rightarrow>
     (error + evacDst \<times> evacDst) \<times> ('k, 'v) hmap" where
  "evacuate_cells t newbit b i x y h =
     (if i < bucketCnt then
        (case evacuate_cell t newbit b i x y h of
           (Inl e, h) \<Rightarrow> (Inl e, h)
         | (Inr (x, y), h) \<Rightarrow> evacuate_cells t newbit b (i + 1) x y h)
      else (Inr (x, y), h))"
  by pat_completeness auto
termination
  by (relation "measure (\<lambda>(t, newbit, b, i, x, y, h). bucketCnt - i)") auto

partial_function (option) evacuate_chain ::
  "('k, 'v) maptype \<Rightarrow> uintptr \<Rightarrow> nat \<Rightarrow> evacDst \<Rightarrow> evacDst \<Rightarrow> ('k, 'v) hmap \<Rightarrow>
     ((error + unit) \<times> ('k, 'v) hmap) option" where
  "evacuate_chain t newbit b x y h =
     (if b = 0 then Some (Inr (), h)
      else case evacuate_cells t newbit b 0 x y h of
             (Inl e, h) \<Rightarrow> Some (Inl e, h)
           | (Inr (x, y), h) \<Rightarrow> evacuate_chain t newbit (overflow h b) x y h)"

declare evacuate_chain.simps [code]

function advance_loop ::
  "('k, 'v) maptype \<Rightarrow> uintptr \<Rightarrow> ('k, 'v) hmap \<Rightarrow> ('k, 'v) hmap" where
  "advance_loop t stop h =
     (if nevacuate h \<noteq> stop \<and> bucketEvacuated t h (nevacuate h)
      then advance_loop t stop (h\<lparr>nevacuate := nevacuate h + 1\<rparr>)
      else h)"
  by pat_completeness auto
termination
proof (relation "measure (\<lambda>(t, stop, h). unat (stop - nevacuate h))", goal_cases)
  case 1
  show ?case by simp
next
  case (2 t stop h)
  then have nz: "stop - nevacuate h \<noteq> 0" by auto
  then have "0 < unat (stop - nevacuate h)" by (simp add: unat_gt_0)
  then have "unat (stop - nevacuate h - 1) < unat (stop - nevacuate h)"
    using nz by (simp add: unat_minus_one)
  then show ?case by (simp add: diff_diff_eq [symmetric])
qed

definition advanceEvacuationMark ::
  "('k, 'v) hmap \<Rightarrow> ('k, 'v) maptype \<Rightarrow> uintptr \<Rightarrow> ('k, 'v) hmap" where
  "advanceEvacuationMark h t newbit =
     (let h = h\<lparr>nevacuate := nevacuate h + 1\<rparr>;
          stop = nevacuate h + 1024;
          stop = (if stop > newbit then newbit else stop);
          h = advance_loop t stop h
      in if nevacuate h = newbit
         then h\<lparr>oldbuckets := 0,
                extra := map_option (\<lambda>x. x\<lparr>extra_oldoverflow := None\<rparr>) (extra h),
                flags := flags h AND NOT sameSizeGrow\<rparr>
         else h)"

definition evacuate ::
  "('k, 'v) maptype \<Rightarrow> ('k, 'v) hmap \<Rightarrow> uintptr \<Rightarrow> ((error + unit) \<times> ('k, 'v) hmap) option" where
  "evacuate t h oldbucket =
     (let b = oldbuckets h + unat oldbucket * stride t;
          newbit = noldbuckets h
      in Option.bind
           (if \<not> evacuated (mem h b) then
              (let x = \<lparr>dst_b = buckets h + unat oldbucket * stride t, dst_i = 0\<rparr>;
                   y = (if \<not> is_sameSizeGrow h
                        then \<lparr>dst_b = buckets h + unat (oldbucket + newbit) * stride t, dst_i = 0\<rparr>
                        else \<lparr>dst_b = 0, dst_i = 0\<rparr>)
               in Option.bind (evacuate_chain t newbit b x y h)
                    (\<lambda>r. case r of
                       (Inl e, h) \<Rightarrow> Some (Inl e, h)
                     | (Inr u, h) \<Rightarrow>
                         if flags h AND oldIterator = 0 \<and> bucket_ptrdata t \<noteq> 0
                         then (let b = oldbuckets h + unat oldbucket * stride t
                               in Some (Inr (), h\<lparr>mem := (mem h)(b := (mem h b)
                                    \<lparr>keys := (\<lambda>_. key_zero t), elems := (\<lambda>_. elem_zero t),
                                     overflow_ptr := 0\<rparr>)\<rparr>))
                         else Some (Inr (), h)))
            else Some (Inr (), h))
           (\<lambda>r. case r of
              (Inl e, h) \<Rightarrow> Some (Inl e, h)
            | (Inr u, h) \<Rightarrow>
                if oldbucket = nevacuate h then Some (Inr (), advanceEvacuationMark h t newbit)
                else Some (Inr (), h)))"

definition growWork ::
  "('k, 'v) maptype \<Rightarrow> ('k, 'v) hmap \<Rightarrow> uintptr \<Rightarrow> ((error + unit) \<times> ('k, 'v) hmap) option" where
  "growWork t h bucket =
     Option.bind (evacuate t h (bucket AND oldbucketmask h))
       (\<lambda>r. case r of
          (Inl e, h) \<Rightarrow> Some (Inl e, h)
        | (Inr u, h) \<Rightarrow> if growing h then evacuate t h (nevacuate h) else Some (Inr (), h))"


subsection \<open>Insert and update\<close>

datatype acells = AFound nat | AStop "(nat \<times> nat) option" | ACont "(nat \<times> nat) option"

text \<open>
  The inner loop of \<^verbatim>\<open>mapassign\<close> over the cells of the bucket at address \<open>a\<close>; \<open>ins\<close>
  is the first empty cell seen so far (\<^verbatim>\<open>inserti\<close>, \<^verbatim>\<open>insertk\<close> and \<^verbatim>\<open>elem\<close> together).
\<close>

function assign_cells ::
  "('k, 'v) maptype \<Rightarrow> 'k \<Rightarrow> uint8 \<Rightarrow> nat \<Rightarrow> ('k, 'v) bmap \<Rightarrow> nat \<Rightarrow> (nat \<times> nat) option \<Rightarrow> acells"
  where
  "assign_cells t key tp a b i ins =
     (if i < bucketCnt then
        (if topbits b i \<noteq> tp then
           (let ins = (if isEmpty (topbits b i) \<and> ins = None then Some (a, i) else ins)
            in if topbits b i = emptyRest then AStop ins
               else assign_cells t key tp a b (i + 1) ins)
         else if \<not> key_equal t key (keys b i) then assign_cells t key tp a b (i + 1) ins
         else AFound i)
      else ACont ins)"
  by pat_completeness auto
termination
  by (relation "measure (\<lambda>(t, key, tp, a, b, i, ins). bucketCnt - i)") auto

text \<open>
  The outer loop of \<^verbatim>\<open>mapassign\<close>. The result is the cell of an existing mapping if
  there is one, the first empty cell seen, and the bucket the walk ended in.
\<close>

partial_function (option) assign_loop ::
  "('k, 'v) maptype \<Rightarrow> ('k, 'v) hmap \<Rightarrow> 'k \<Rightarrow> uint8 \<Rightarrow> nat \<Rightarrow> (nat \<times> nat) option \<Rightarrow>
     ((nat \<times> nat) option \<times> (nat \<times> nat) option \<times> nat) option" where
  "assign_loop t h key tp b ins =
     (case assign_cells t key tp b (mem h b) 0 ins of
        AFound i \<Rightarrow> Some (Some (b, i), ins, b)
      | AStop ins \<Rightarrow> Some (None, ins, b)
      | ACont ins \<Rightarrow>
          (let ovf = overflow h b
           in if ovf = 0 then Some (None, ins, b) else assign_loop t h key tp ovf ins))"

declare assign_loop.simps [code]

datatype ('k, 'v) attempt =
    Done nat nat "('k, 'v) hmap"     \<comment> \<open>reached \<^verbatim>\<open>done:\<close> with the element slot\<close>
  | Again "('k, 'v) hmap"            \<comment> \<open>\<^verbatim>\<open>goto again\<close>, after \<^verbatim>\<open>hashGrow\<close>\<close>
  | Failed error "('k, 'v) hmap"

text \<open>The statements of \<^verbatim>\<open>mapassign\<close> from the label \<^verbatim>\<open>again:\<close> to \<^verbatim>\<open>done:\<close>.\<close>

definition mapassign_pass ::
  "('k, 'v) maptype \<Rightarrow> 'k \<Rightarrow> uintptr \<Rightarrow> ('k, 'v) hmap \<Rightarrow> ('k, 'v) attempt option" where
  "mapassign_pass t key hash h =
     (let bucket = hash AND bucketMask (B h)
      in Option.bind (if growing h then growWork t h bucket else Some (Inr (), h))
           (\<lambda>r. case r of
              (Inl e, h) \<Rightarrow> Some (Failed e h)
            | (Inr u, h) \<Rightarrow>
                (let b = buckets h + unat bucket * stride t;
                     tp = tophash hash
                 in Option.bind (assign_loop t h key tp b None)
                      (\<lambda>(found, ins, b).
                         case found of
                           Some (fb, fi) \<Rightarrow>
                             Some (Done fb fi (if needkeyupdate t then set_key fb fi key h else h))
                         | None \<Rightarrow>
                             if \<not> growing h \<and>
                                (overLoadFactor (count h + 1) (B h) \<or>
                                 tooManyOverflowBuckets (noverflow h) (B h))
                             then (case hashGrow t h of
                                     (Inl e, h) \<Rightarrow> Some (Failed e h)
                                   | (Inr u, h) \<Rightarrow> Some (Again h))
                             else
                               (let ((ib, ii), h) =
                                      (case ins of
                                         None \<Rightarrow> (let (newb, h) = newoverflow t b h
                                                   in ((newb, 0), h))
                                       | Some p \<Rightarrow> (p, h));
                                    h = (if indirectelem t then set_elem ib ii (elem_zero t) h else h);
                                    h = set_key ib ii key h;
                                    h = set_tophash ib ii tp h;
                                    h = h\<lparr>count := count h + 1\<rparr>
                                in Some (Done ib ii h))))))"

partial_function (option) mapassign_again ::
  "('k, 'v) maptype \<Rightarrow> 'k \<Rightarrow> uintptr \<Rightarrow> ('k, 'v) hmap \<Rightarrow>
     ((error + nat \<times> nat) \<times> ('k, 'v) hmap) option" where
  "mapassign_again t key hash h =
     Option.bind (mapassign_pass t key hash h)
       (\<lambda>a. case a of
          Done b i h \<Rightarrow> Some (Inr (b, i), h)
        | Failed e h \<Rightarrow> Some (Inl e, h)
        | Again h \<Rightarrow> mapassign_again t key hash h)"

declare mapassign_again.simps [code]

text \<open>
  \<^verbatim>\<open>mapassign\<close>. With a \<^verbatim>\<open>nil\<close> header there is no state to return; the second component
  is \<open>None\<close> then.
\<close>

definition mapassign ::
  "('k, 'v) maptype \<Rightarrow> ('k, 'v) hmap option \<Rightarrow> 'k \<Rightarrow>
     ((error + ptr) \<times> ('k, 'v) hmap option) option" where
  "mapassign t hopt key =
     (case hopt of
        None \<Rightarrow> Some (Inl (Panic ''assignment to entry in nil map''), None)
      | Some h \<Rightarrow>
          if flags h AND hashWriting \<noteq> 0 then Some (Inl (Throw ''concurrent map writes''), Some h)
          else case hasher t key (ucast (hash0 h)) of
                 None \<Rightarrow> Some (Inl HashPanic, Some h)
               | Some hash \<Rightarrow>
                   (let h = h\<lparr>flags := flags h XOR hashWriting\<rparr>;
                        h = (if buckets h = 0
                             then (let (p, h) = newobject t h in h\<lparr>buckets := p\<rparr>) else h)
                    in Option.bind (mapassign_again t key hash h)
                         (\<lambda>r. case r of
                            (Inl e, h) \<Rightarrow> Some (Inl e, Some h)
                          | (Inr (b, i), h) \<Rightarrow>
                              if flags h AND hashWriting = 0
                              then Some (Inl (Throw ''concurrent map writes''), Some h)
                              else Some (Inr (ElemAt b i),
                                         Some (h\<lparr>flags := flags h AND NOT hashWriting\<rparr>)))))"

subsection \<open>Delete\<close>

text \<open>\<^verbatim>\<open>for b = bOrig; b.overflow(t) != c; b = b.overflow(t) {}\<close>\<close>

partial_function (option) find_prev ::
  "('k, 'v) hmap \<Rightarrow> nat \<Rightarrow> nat \<Rightarrow> (error + nat) option" where
  "find_prev h b c =
     (if b = 0 then Some (Inl Fault)
      else if overflow h b \<noteq> c then find_prev h (overflow h b) c
      else Some (Inr b))"

declare find_prev.simps [code]

text \<open>
  The loop of \<^verbatim>\<open>mapdelete\<close> that turns the trailing \<^verbatim>\<open>emptyOne\<close> cells into
  \<^verbatim>\<open>emptyRest\<close>, entered at cell \<open>i\<close> of the bucket at \<open>b\<close>.
\<close>

partial_function (option) delete_fixup ::
  "nat \<Rightarrow> nat \<Rightarrow> nat \<Rightarrow> ('k, 'v) hmap \<Rightarrow> ((error + unit) \<times> ('k, 'v) hmap) option" where
  "delete_fixup bOrig b i h =
     (let h = set_tophash b i emptyRest h
      in if i = 0 then
           (if b = bOrig then Some (Inr (), h)
            else Option.bind (find_prev h bOrig b)
                   (\<lambda>r. case r of
                      Inl e \<Rightarrow> Some (Inl e, h)
                    | Inr pb \<Rightarrow>
                        if topbits (mem h pb) (bucketCnt - 1) \<noteq> emptyOne then Some (Inr (), h)
                        else delete_fixup bOrig pb (bucketCnt - 1) h))
         else if topbits (mem h b) (i - 1) \<noteq> emptyOne then Some (Inr (), h)
         else delete_fixup bOrig b (i - 1) h)"

declare delete_fixup.simps [code]

text \<open>What \<^verbatim>\<open>mapdelete\<close> does to the matching cell \<open>i\<close> of the bucket at \<open>b\<close>.\<close>

definition delete_cell ::
  "('k, 'v) maptype \<Rightarrow> nat \<Rightarrow> nat \<Rightarrow> nat \<Rightarrow> ('k, 'v) hmap \<Rightarrow>
     ((error + unit) \<times> ('k, 'v) hmap) option" where
  "delete_cell t bOrig b i h =
     (let h = (if indirectkey t then set_key b i (key_zero t) h
               else if key_ptrdata t \<noteq> 0 then set_key b i (key_zero t) h
               else h);
          h = set_elem b i (elem_zero t) h;
          h = set_tophash b i emptyOne h;
          notLast = (if i = bucketCnt - 1
                     then overflow h b \<noteq> 0 \<and> topbits (mem h (overflow h b)) 0 \<noteq> emptyRest
                     else topbits (mem h b) (i + 1) \<noteq> emptyRest)
      in Option.bind (if notLast then Some (Inr (), h) else delete_fixup bOrig b i h)
           (\<lambda>r. case r of
              (Inl e, h) \<Rightarrow> Some (Inl e, h)
            | (Inr u, h) \<Rightarrow> Some (Inr (), h\<lparr>count := count h - 1\<rparr>)))"

definition mapdelete ::
  "('k, 'v) maptype \<Rightarrow> ('k, 'v) hmap option \<Rightarrow> 'k \<Rightarrow>
     ((error + unit) \<times> ('k, 'v) hmap option) option" where
  "mapdelete t hopt key =
     (case (case hopt of None \<Rightarrow> None | Some h \<Rightarrow> if count h = 0 then None else Some h) of
        None \<Rightarrow>
          (if hashMightPanic t then
             (case hasher t key 0 of None \<Rightarrow> Some (Inl HashPanic, hopt)
                                   | Some _ \<Rightarrow> Some (Inr (), hopt))
           else Some (Inr (), hopt))
      | Some h \<Rightarrow>
          if flags h AND hashWriting \<noteq> 0 then Some (Inl (Throw ''concurrent map writes''), Some h)
          else case hasher t key (ucast (hash0 h)) of
                 None \<Rightarrow> Some (Inl HashPanic, Some h)
               | Some hash \<Rightarrow>
                   (let h = h\<lparr>flags := flags h XOR hashWriting\<rparr>;
                        bucket = hash AND bucketMask (B h)
                    in Option.bind (if growing h then growWork t h bucket else Some (Inr (), h))
                         (\<lambda>r. case r of
                            (Inl e, h) \<Rightarrow> Some (Inl e, Some h)
                          | (Inr u, h) \<Rightarrow>
                              (let bOrig = buckets h + unat bucket * stride t;
                                   tp = tophash hash
                               in Option.bind (bucketloop t h key tp bOrig)
                                    (\<lambda>found.
                                       Option.bind
                                         (case found of
                                            None \<Rightarrow> Some (Inr (), h)
                                          | Some (b, i) \<Rightarrow> delete_cell t bOrig b i h)
                                         (\<lambda>r. case r of
                                            (Inl e, h) \<Rightarrow> Some (Inl e, Some h)
                                          | (Inr u, h) \<Rightarrow>
                                              if flags h AND hashWriting = 0
                                              then Some (Inl (Throw ''concurrent map writes''), Some h)
                                              else Some (Inr (),
                                                Some (h\<lparr>flags := flags h AND NOT hashWriting\<rparr>))))))))"

subsection \<open>Clear\<close>

definition mapclear ::
  "('k, 'v) maptype \<Rightarrow> ('k, 'v) hmap option \<Rightarrow> (error + unit) \<times> ('k, 'v) hmap option" where
  "mapclear t hopt =
     (case (case hopt of None \<Rightarrow> None | Some h \<Rightarrow> if count h = 0 then None else Some h) of
        None \<Rightarrow> (Inr (), hopt)
      | Some h \<Rightarrow>
          if flags h AND hashWriting \<noteq> 0 then (Inl (Throw ''concurrent map writes''), Some h)
          else
            (let h = h\<lparr>flags := flags h XOR hashWriting\<rparr>;
                 h = h\<lparr>flags := flags h AND NOT sameSizeGrow\<rparr>;
                 h = h\<lparr>oldbuckets := 0, nevacuate := 0, noverflow := 0, count := 0\<rparr>;
                 h = h\<lparr>extra := map_option (\<lambda>_. new_mapextra) (extra h)\<rparr>
             in case makeBucketArray t (B h) (buckets h) h of
                  (Inl e, h) \<Rightarrow> (Inl e, Some h)
                | (Inr (bkts, nextOvf), h) \<Rightarrow>
                    (case (if nextOvf \<noteq> 0
                           then (case extra h of
                                   None \<Rightarrow> Inl Fault
                                 | Some x \<Rightarrow> Inr (h\<lparr>extra := Some (x\<lparr>nextOverflow := nextOvf\<rparr>)\<rparr>))
                           else Inr h) of
                       Inl e \<Rightarrow> (Inl e, Some h)
                     | Inr h \<Rightarrow>
                         if flags h AND hashWriting = 0
                         then (Inl (Throw ''concurrent map writes''), Some h)
                         else (Inr (), Some (h\<lparr>flags := flags h AND NOT hashWriting\<rparr>)))))"

subsection \<open>Iteration\<close>

datatype iter_step = Yield hiter | NextBucket

text \<open>
  The filter \<^verbatim>\<open>mapiternext\<close> applies to an occupied cell of an old bucket that is not
  evacuated yet, while the table grows to twice its size: \<open>True\<close> where the source
  \<^verbatim>\<open>continue\<close>s.
\<close>

definition iter_skip ::
  "('k, 'v) maptype \<Rightarrow> ('k, 'v) hmap \<Rightarrow> hiter \<Rightarrow> uintptr \<Rightarrow> 'k \<Rightarrow> uint8 \<Rightarrow> bool option" where
  "iter_skip t h it checkBucket k tp =
     (if reflexivekey t \<or> key_equal t k k then
        (case hasher t k (ucast (hash0 h)) of
           None \<Rightarrow> None
         | Some hash \<Rightarrow> Some (hash AND bucketMask (it_B it) \<noteq> checkBucket))
      else Some (drop_bit (unat (it_B it - 1)) checkBucket \<noteq> ucast (tp AND 1)))"

text \<open>The loop \<^verbatim>\<open>for ; i < bucketCnt; i++\<close> of \<^verbatim>\<open>mapiternext\<close> on the bucket at \<open>b\<close>.\<close>

function iter_cells ::
  "('k, 'v) maptype \<Rightarrow> ('k, 'v) hmap \<Rightarrow> hiter \<Rightarrow> uintptr \<Rightarrow> nat \<Rightarrow> uint8 \<Rightarrow> uintptr \<Rightarrow>
     (error + iter_step) option" where
  "iter_cells t h it bucket b i checkBucket =
     (if b = 0 then Some (Inl Fault)
      else if i < of_nat bucketCnt then
        (let offi = unat ((i + it_offset it) AND (of_nat bucketCnt - 1));
             tp = topbits (mem h b) offi
         in if isEmpty tp \<or> tp = evacuatedEmpty
            then iter_cells t h it bucket b (i + 1) checkBucket
            else
              (let k = keys (mem h b) offi
               in case (if checkBucket \<noteq> noCheck \<and> \<not> is_sameSizeGrow h
                        then iter_skip t h it checkBucket k tp else Some False) of
                    None \<Rightarrow> Some (Inl HashPanic)
                  | Some True \<Rightarrow> iter_cells t h it bucket b (i + 1) checkBucket
                  | Some False \<Rightarrow>
                      if (tp \<noteq> evacuatedX \<and> tp \<noteq> evacuatedY) \<or>
                         \<not> (reflexivekey t \<or> key_equal t k k)
                      then Some (Inr (Yield (it\<lparr>it_key := KeyAt b offi, it_elem := ElemAt b offi,
                                   it_bucket := bucket, it_bptr := b, it_i := i + 1,
                                   it_checkBucket := checkBucket\<rparr>)))
                      else
                        (case mapaccessK t (Some h) k of
                           None \<Rightarrow> None
                         | Some (Inl e) \<Rightarrow> Some (Inl e)
                         | Some (Inr (rk, re)) \<Rightarrow>
                             if rk = Nil then iter_cells t h it bucket b (i + 1) checkBucket
                             else Some (Inr (Yield (it\<lparr>it_key := rk, it_elem := re,
                                   it_bucket := bucket, it_bptr := b, it_i := i + 1,
                                   it_checkBucket := checkBucket\<rparr>))))))
      else Some (Inr NextBucket))"
  by pat_completeness auto
termination
proof (relation "measure (\<lambda>(t, h, it, bucket, b, i, checkBucket). 8 - unat i)", goal_cases)
  case 1
  show ?case by simp
next
  case (2 t h it bucket b i checkBucket)
  then have "unat i < 8" by (simp add: bucketCnt_def bucketCntBits_def word_less_nat_alt)
  then show ?case by (simp add: unat_word_ariths)
next
  case (3 t h it bucket b i checkBucket)
  then have "unat i < 8" by (simp add: bucketCnt_def bucketCntBits_def word_less_nat_alt)
  then show ?case by (simp add: unat_word_ariths)
next
  case (4 t h it bucket b i checkBucket)
  then have "unat i < 8" by (simp add: bucketCnt_def bucketCntBits_def word_less_nat_alt)
  then show ?case by (simp add: unat_word_ariths)
qed

text \<open>
  The block of \<^verbatim>\<open>mapiternext\<close> under \<^verbatim>\<open>if b == nil\<close>: either the iteration has ended,
  or the walk enters the next bucket.
\<close>

definition iter_enter ::
  "('k, 'v) maptype \<Rightarrow> ('k, 'v) hmap \<Rightarrow> hiter \<Rightarrow> uintptr \<Rightarrow> nat \<Rightarrow> uint8 \<Rightarrow> uintptr \<Rightarrow>
     hiter + (hiter \<times> uintptr \<times> nat \<times> uint8 \<times> uintptr)" where
  "iter_enter t h it bucket b i checkBucket =
     (if b = 0 then
        (if bucket = it_startBucket it \<and> it_wrapped it
         then Inl (it\<lparr>it_key := Nil, it_elem := Nil\<rparr>)
         else
           (let (b, checkBucket) =
                  (if growing h \<and> it_B it = B h then
                     (let oldbucket = bucket AND oldbucketmask h;
                          b = oldbuckets h + unat oldbucket * stride t
                      in if \<not> evacuated (mem h b) then (b, bucket)
                         else (it_buckets it + unat bucket * stride t, noCheck))
                   else (it_buckets it + unat bucket * stride t, noCheck));
                bucket = bucket + 1;
                (bucket, it) = (if bucket = bucketShift (it_B it)
                                then (0, it\<lparr>it_wrapped := True\<rparr>) else (bucket, it))
            in Inr (it, bucket, b, 0, checkBucket)))
      else Inr (it, bucket, b, i, checkBucket))"

partial_function (option) mapiternext_loop ::
  "('k, 'v) maptype \<Rightarrow> ('k, 'v) hmap \<Rightarrow> hiter \<Rightarrow> uintptr \<Rightarrow> nat \<Rightarrow> uint8 \<Rightarrow> uintptr \<Rightarrow>
     (error + hiter) option" where
  "mapiternext_loop t h it bucket b i checkBucket =
     (case iter_enter t h it bucket b i checkBucket of
        Inl it \<Rightarrow> Some (Inr it)
      | Inr (it, bucket, b, i, checkBucket) \<Rightarrow>
          (case iter_cells t h it bucket b i checkBucket of
             None \<Rightarrow> None
           | Some (Inl e) \<Rightarrow> Some (Inl e)
           | Some (Inr (Yield it)) \<Rightarrow> Some (Inr it)
           | Some (Inr NextBucket) \<Rightarrow> mapiternext_loop t h it bucket (overflow h b) 0 checkBucket))"

declare mapiternext_loop.simps [code]

text \<open>\<^verbatim>\<open>mapiternext\<close>; \<open>h\<close> is \<^verbatim>\<open>it.h\<close> and \<open>t\<close> is \<^verbatim>\<open>it.t\<close>.\<close>

definition mapiternext ::
  "('k, 'v) maptype \<Rightarrow> ('k, 'v) hmap \<Rightarrow> hiter \<Rightarrow> (error + hiter) option" where
  "mapiternext t h it =
     (if flags h AND hashWriting \<noteq> 0
      then Some (Inl (Throw ''concurrent map iteration and map write''))
      else mapiternext_loop t h it (it_bucket it) (it_bptr it) (it_i it) (it_checkBucket it))"

definition mapiterinit ::
  "('k, 'v) maptype \<Rightarrow> ('k, 'v) hmap option \<Rightarrow> hiter \<Rightarrow>
     ((error + hiter) \<times> ('k, 'v) hmap option) option" where
  "mapiterinit t hopt it =
     (case (case hopt of None \<Rightarrow> None | Some h \<Rightarrow> if count h = 0 then None else Some h) of
        None \<Rightarrow> Some (Inr it, hopt)
      | Some h \<Rightarrow>
          (let it = it\<lparr>it_B := B h, it_buckets := buckets h\<rparr>;
               (it, h) = (if bucket_ptrdata t = 0
                          then (let h = createOverflow h
                                in (it\<lparr>it_overflow := Option.bind (extra h) extra_overflow,
                                       it_oldoverflow := Option.bind (extra h) extra_oldoverflow\<rparr>, h))
                          else (it, h));
               (r0, h) = fastrand h;
               r = (ucast r0 :: uintptr);
               (r, h) = (if B h > 31 - of_nat bucketCntBits
                         then (let (r1, h) = fastrand h in (r + push_bit 31 (ucast r1), h))
                         else (r, h));
               it = it\<lparr>it_startBucket := r AND bucketMask (B h),
                       it_offset := ucast (drop_bit (unat (B h)) r AND (of_nat bucketCnt - 1))\<rparr>;
               it = it\<lparr>it_bucket := it_startBucket it\<rparr>;
               h = (if flags h AND (iterator OR oldIterator) \<noteq> iterator OR oldIterator
                    then h\<lparr>flags := flags h OR (iterator OR oldIterator)\<rparr> else h)
           in map_option (\<lambda>r. case r of Inl e \<Rightarrow> (Inl e, Some h) | Inr it \<Rightarrow> (Inr it, Some h))
                (mapiternext t h it)))"

section \<open>Chains and concrete tables\<close>

text \<open>
  \<open>is_chain h b as\<close>: following the overflow pointers from the bucket at \<open>b\<close> visits
  exactly the addresses \<open>as\<close> and then reaches \<^verbatim>\<open>nil\<close>.
\<close>

fun is_chain :: "('k, 'v) hmap \<Rightarrow> nat \<Rightarrow> nat list \<Rightarrow> bool" where
  "is_chain h b [] = (b = 0)"
| "is_chain h b (a # as) = (b \<noteq> 0 \<and> a = b \<and> is_chain h (overflow h b) as)"

text \<open>
  A descriptor for integer keys and elements, as for \<^verbatim>\<open>map[int64]int64\<close>: the bucket is
  \<open>8 + 8 * 8 + 8 * 8 + 8 = 144\<close> bytes, the hash of a key is the key.
\<close>

definition ex_type :: "(nat, nat) maptype" where
  "ex_type = \<lparr>hasher = (\<lambda>k seed. Some (of_nat k)), key_equal = (=), bucket_size = 144,
     bucket_ptrdata = 0, key_ptrdata = 0, elem_ptrdata = 0, bucketsize = 144,
     indirectkey = False, indirectelem = False, reflexivekey = True, needkeyupdate = False,
     hashMightPanic = False, key_zero = 0, elem_zero = 0\<rparr>"

text \<open>The same keys under a hash function that panics on the key \<open>0\<close>.\<close>

definition trap_type :: "(nat, nat) maptype" where
  "trap_type = ex_type\<lparr>hasher := (\<lambda>k seed. if k = 0 then None else Some (of_nat k)),
     hashMightPanic := True\<rparr>"

text \<open>Keys that are never equal, not even to themselves, as a floating-point NaN is.\<close>

definition nan_type :: "(nat, nat) maptype" where
  "nan_type = ex_type\<lparr>key_equal := (\<lambda>a b. False), reflexivekey := False\<rparr>"

definition ex_heap :: "(nat, nat) heap" where
  "ex_heap = \<lparr>mem = (\<lambda>_. zero_bmap ex_type), brk = 4096, rnd = (\<lambda>_. 0), rnd_pos = 0,
     roundupsize = (\<lambda>sz. sz), maxAlloc = 2 ^ 48\<rparr>"

text \<open>A table of one bucket at address 4096 that holds the key 1 with the element 100.\<close>

definition ex_one :: "(nat, nat) hmap" where
  "ex_one = (new_hmap ex_heap)\<lparr>
     mem := (\<lambda>_. zero_bmap ex_type)(4096 := (zero_bmap ex_type)
       \<lparr>topbits := (\<lambda>_. 0)(0 := 5), keys := (\<lambda>_. 0)(0 := 1), elems := (\<lambda>_. 0)(0 := 100)\<rparr>),
     brk := 4240, count := 1, buckets := 4096\<rparr>"

text \<open>The same table while a writer is inside it.\<close>

definition ex_writing :: "(nat, nat) hmap" where
  "ex_writing = ex_one\<lparr>flags := hashWriting\<rparr>"

definition ex_iter :: hiter where
  "ex_iter = \<lparr>it_key = Nil, it_elem = Nil, it_buckets = 4096, it_bptr = 0, it_overflow = None,
     it_oldoverflow = None, it_startBucket = 0, it_offset = 0, it_wrapped = False, it_B = 0,
     it_i = 0, it_bucket = 0, it_checkBucket = 0\<rparr>"

text \<open>A table of one full bucket: the keys 1 to 8, each with its tenfold as element.\<close>

definition ex_full :: "(nat, nat) hmap" where
  "ex_full = (new_hmap ex_heap)\<lparr>
     mem := (\<lambda>_. zero_bmap ex_type)(4096 := (zero_bmap ex_type)
       \<lparr>topbits := (\<lambda>_. 5), keys := (\<lambda>i. i + 1), elems := (\<lambda>i. 10 * (i + 1))\<rparr>),
     brk := 4240, count := 8, buckets := 4096\<rparr>"

text \<open>
  An allocator that rounds a size above 32768 bytes up to whole pages of 8192 bytes, as
  the Go allocator does for large objects.
\<close>

definition page_heap :: "(nat, nat) heap" where
  "page_heap = ex_heap\<lparr>roundupsize :=
     (\<lambda>sz. if sz > 32768 then ((sz + 8191) div 8192) * 8192 else sz)\<rparr>"

text \<open>An empty header whose overflow pool cursor is the address 6400.\<close>

definition ex_pool :: "(nat, nat) hmap" where
  "ex_pool = (new_hmap ex_heap)\<lparr>extra := Some (new_mapextra\<lparr>nextOverflow := 6400\<rparr>)\<rparr>"


section \<open>The tophash bytes of a chain\<close>

text \<open>
  The tophash bytes of the bucket at \<open>a\<close>, and of the buckets of a chain one after the
  other: the order in which the search loops read them.
\<close>

definition cells :: "('k, 'v) hmap \<Rightarrow> nat \<Rightarrow> uint8 list" where
  "cells h a = map (topbits (mem h a)) [0..<bucketCnt]"

definition chain_tophash :: "('k, 'v) hmap \<Rightarrow> nat list \<Rightarrow> uint8 list" where
  "chain_tophash h as = concat (map (cells h) as)"

text \<open>
  The short-circuit invariant: no cell marked \<^verbatim>\<open>emptyRest\<close> is followed by an occupied
  cell, at a higher index of its bucket or in a later bucket of the chain.
\<close>

fun short_circuit :: "uint8 list \<Rightarrow> bool" where
  "short_circuit [] = True"
| "short_circuit (x # xs) = ((x = emptyRest \<longrightarrow> list_all isEmpty xs) \<and> short_circuit xs)"

text \<open>
  The marks are as early as they can be: a cell with only empty cells from it on is marked
  \<^verbatim>\<open>emptyRest\<close>, not \<^verbatim>\<open>emptyOne\<close>.
\<close>

fun rest_maximal :: "uint8 list \<Rightarrow> bool" where
  "rest_maximal [] = True"
| "rest_maximal (x # xs) = ((list_all isEmpty (x # xs) \<longrightarrow> x = emptyRest) \<and> rest_maximal xs)"

text \<open>
  What deleting the entry of cell \<open>p\<close> does to the tophash bytes of its chain: if no
  occupied cell follows, the cell and the run of \<^verbatim>\<open>emptyOne\<close> cells right before it become
  \<^verbatim>\<open>emptyRest\<close>; otherwise the cell becomes \<^verbatim>\<open>emptyOne\<close>.
\<close>

definition delete_tophash :: "uint8 list \<Rightarrow> nat \<Rightarrow> uint8 list" where
  "delete_tophash xs p =
     (if list_all isEmpty (drop (p + 1) xs)
      then (let n = length (takeWhile (\<lambda>x. x = emptyOne) (rev (take p xs)))
            in take (p - n) xs @ replicate (n + 1) emptyRest @ drop (p + 1) xs)
      else xs[p := emptyOne])"

text \<open>The loop of \<^verbatim>\<open>mapdelete\<close> that walks back from cell \<open>p\<close>, on the bytes of the chain.\<close>

fun promote :: "uint8 list \<Rightarrow> nat \<Rightarrow> uint8 list" where
  "promote xs 0 = xs[0 := emptyRest]"
| "promote xs (Suc p) =
     (if xs ! p = emptyOne then promote (xs[Suc p := emptyRest]) p else xs[Suc p := emptyRest])"

text \<open>
  \<open>tophash_frame S h h'\<close>: \<open>h'\<close> is \<open>h\<close> but for tophash bytes of the buckets at the
  addresses in \<open>S\<close>.
\<close>

definition tophash_frame :: "nat set \<Rightarrow> ('k, 'v) hmap \<Rightarrow> ('k, 'v) hmap \<Rightarrow> bool" where
  "tophash_frame S h h' =
     (h' = h\<lparr>mem := mem h'\<rparr> \<and>
      (\<forall>a. a \<notin> S \<longrightarrow> mem h' a = mem h a) \<and>
      (\<forall>a. mem h' a = (mem h a)\<lparr>topbits := topbits (mem h' a)\<rparr>))"

text \<open>
  \<open>cell_frame S h h'\<close>: \<open>h'\<close> is \<open>h\<close> but for \<^verbatim>\<open>count\<close> and for the cells of the buckets at
  the addresses in \<open>S\<close>; no overflow pointer has changed.
\<close>

definition cell_frame :: "nat set \<Rightarrow> ('k, 'v) hmap \<Rightarrow> ('k, 'v) hmap \<Rightarrow> bool" where
  "cell_frame S h h' =
     (h' = h\<lparr>mem := mem h', count := count h'\<rparr> \<and>
      (\<forall>a. a \<notin> S \<longrightarrow> mem h' a = mem h a) \<and>
      (\<forall>a. overflow h' a = overflow h a))"
section \<open>Well-formed tables\<close>

text \<open>A cell: its tophash byte, its key and its element.\<close>

type_synonym ('k, 'v) cell = "uint8 \<times> 'k \<times> 'v"

definition cell :: "('k, 'v) hmap \<Rightarrow> nat \<Rightarrow> nat \<Rightarrow> ('k, 'v) cell" where
  "cell h a i = (topbits (mem h a) i, keys (mem h a) i, elems (mem h a) i)"

definition chain_cells :: "('k, 'v) hmap \<Rightarrow> nat list \<Rightarrow> ('k, 'v) cell list" where
  "chain_cells h as = concat (map (\<lambda>a. map (cell h a) [0..<bucketCnt]) as)"

text \<open>
  The descriptor of a map type: \<^verbatim>\<open>bucketsize\<close> is the size of the bucket type, and a
  bucket is not empty.
\<close>

definition valid_type :: "('k, 'v) maptype \<Rightarrow> bool" where
  "valid_type t = (bucketsize t \<noteq> 0 \<and> bucket_size t = ucast (bucketsize t))"



text \<open>The header fields that only \<^verbatim>\<open>hashGrow\<close>, \<^verbatim>\<open>mapclear\<close> and the callers write.\<close>

definition same_header :: "('k, 'v) hmap \<Rightarrow> ('k, 'v) hmap \<Rightarrow> bool" where
  "same_header h h' =
     (count h' = count h \<and> flags h' = flags h \<and> B h' = B h \<and> hash0 h' = hash0 h \<and>
      buckets h' = buckets h \<and> oldbuckets h' = oldbuckets h \<and> nevacuate h' = nevacuate h \<and>
      roundupsize h' = roundupsize h \<and> maxAlloc h' = maxAlloc h \<and> rnd h' = rnd h)"

text \<open>\<^verbatim>\<open>h.extra.nextOverflow\<close>, \<^verbatim>\<open>nil\<close> when there is no \<^verbatim>\<open>h.extra\<close>.\<close>

definition next_pool :: "('k, 'v) hmap \<Rightarrow> nat" where
  "next_pool h = (case extra h of None \<Rightarrow> 0 | Some x \<Rightarrow> nextOverflow x)"



section \<open>The state of an evacuation\<close>






section \<open>Termination of the bucket-count loop\<close>

lemma and63: "unat ((b::uint8) AND 63) = unat b mod 64"
proof -
  have "(b AND 63) = take_bit 6 b" by (simp add: take_bit_eq_mask mask_eq_exp_minus_1)
  then show ?thesis by (simp add: take_bit_eq_mod unat_mod)
qed

lemma sint_nonneg_uint: "0 \<le> sint (n :: 64 word) \<Longrightarrow> uint n = sint n"
proof -
  assume a: "0 \<le> sint n"
  have b: "sint n < 2 ^ 63" using sint_lt [of n] by simp
  have "uint n = take_bit 64 (sint n)" using uint_sint [of n] by simp
  also have "\<dots> = sint n" using a b by (intro take_bit_int_eq_self) auto
  finally show ?thesis .
qed

lemma sless_pos: "(8::64 word) <s n \<Longrightarrow> unat n < 9223372036854775808"
proof -
  assume "8 <s n"
  then have a: "8 < sint n" by (simp add: word_sless_alt)
  then have "uint n = sint n" by (intro sint_nonneg_uint) simp
  moreover have "sint n < 2 ^ 63" using sint_lt [of n] by simp
  ultimately have "uint n < 2 ^ 63" by simp
  then have "int (unat n) < 2 ^ 63" by simp
  then have "unat n < 2 ^ 63" by (simp only: of_nat_less_numeral_power_cancel_iff)
  then show ?thesis by simp
qed

lemma overLoadFactor_shift:
  assumes "overLoadFactor hint b"
  shows "unat b mod 64 \<noteq> 61 \<and> unat b mod 64 \<noteq> 62"
proof -
  have p: "unat hint < 9223372036854775808"
    using assms by (intro sless_pos) (simp add: overLoadFactor_def bucketCnt_def bucketCntBits_def)
  have q: "unat (loadFactorNum * (bucketShift b div loadFactorDen)) < unat hint"
    using assms by (simp add: overLoadFactor_def word_less_nat_alt)
  show ?thesis
  proof (intro conjI notI)
    assume "unat b mod 64 = 61"
    then have "unat (loadFactorNum * (bucketShift b div loadFactorDen)) = 14987979559889010688"
      by (simp add: bucketShift_def and63 loadFactorNum_def loadFactorDen_def)
    then show False using p q by linarith
  next
    assume "unat b mod 64 = 62"
    then have "unat (loadFactorNum * (bucketShift b div loadFactorDen)) = 11529215046068469760"
      by (simp add: bucketShift_def and63 loadFactorNum_def loadFactorDen_def)
    then show False using p q by linarith
  qed
qed

lemma unat_succ8: "unat ((b::uint8) + 1) mod 64 = (unat b mod 64 + 1) mod 64"
proof -
  have "unat (b + 1) = (unat b + 1) mod 256" by (simp add: unat_word_ariths)
  then show ?thesis by (simp add: mod_mod_cancel mod_simps)
qed

lemma makemap_B_measure_less:
  assumes "overLoadFactor hint b"
  shows "makemap_B_measure (b + 1) < makemap_B_measure b"
proof -
  let ?k = "unat b mod 64"
  from overLoadFactor_shift [OF assms] have k: "?k \<noteq> 61" "?k \<noteq> 62" by simp_all
  have lt: "?k < 64" by simp
  have s: "unat (b + 1) mod 64 = (if ?k = 63 then 0 else ?k + 1)"
    using lt by (simp add: unat_succ8)
  show ?thesis
    unfolding makemap_B_measure_def Let_def s using k lt by auto
qed

termination makemap_B
  by (relation "measure (\<lambda>(hint, b). makemap_B_measure b)")
    (simp_all add: makemap_B_measure_less)

section \<open>Basic facts\<close>

lemmas ex_defs = ex_type_def trap_type_def nan_type_def ex_heap_def ex_one_def ex_writing_def
  ex_iter_def new_hmap_def heap.extend_def hmap.fields_def zero_bmap_def

lemmas const_defs = bucketCnt_def bucketCntBits_def loadFactorNum_def loadFactorDen_def
  emptyRest_def emptyOne_def evacuatedX_def evacuatedY_def evacuatedEmpty_def minTopHash_def
  iterator_def oldIterator_def hashWriting_def sameSizeGrow_def noCheck_def

lemmas lookup_defs = mapaccess1_def mapaccess2_def mapaccessK_def lookup_bucket_def
  bucketloop.simps bucketMask_def bucketShift_def tophash_def stride_def overflow_def
  evacuated_def is_sameSizeGrow_def isEmpty_def

declare search_cells.simps [simp del]
declare assign_cells.simps [simp del]
declare evacuate_cells.simps [simp del]
declare advance_loop.simps [simp del]
declare iter_cells.simps [simp del]
declare makemap_B.simps [simp del]

lemma minTopHash_le_tophash: "minTopHash \<le> tophash hash"
proof -
  let ?tp = "ucast (drop_bit 56 hash) :: uint8"
  show ?thesis
  proof (cases "?tp < minTopHash")
    case False
    then show ?thesis by (simp add: tophash_def Let_def)
  next
    case True
    then have "unat ?tp < 5" by (simp add: minTopHash_def word_less_nat_alt)
    then have "unat (?tp + 5) = unat ?tp + 5" by (simp add: unat_word_ariths)
    then have "5 \<le> ?tp + 5" by (simp add: word_le_nat_alt)
    with True show ?thesis by (simp add: tophash_def Let_def minTopHash_def)
  qed
qed

lemma search_cells_Found:
  "search_cells t key tp b i = Found k \<Longrightarrow>
     i \<le> k \<and> k < bucketCnt \<and> topbits b k = tp \<and> key_equal t key (keys b k)"
proof (induction t key tp b i rule: search_cells.induct)
  case (1 t key tp b i)
  show ?case
  proof (cases "i < bucketCnt")
    case False
    with "1.prems" show ?thesis by (simp add: search_cells.simps [of t key tp b i])
  next
    case lt: True
    show ?thesis
    proof (cases "topbits b i \<noteq> tp")
      case True
      with lt "1.prems"
      have "topbits b i \<noteq> emptyRest" "search_cells t key tp b (i + 1) = Found k"
        by (auto simp: search_cells.simps [of t key tp b i] split: if_splits)
      with "1.IH"(1) [OF lt True] show ?thesis by simp
    next
      case False
      show ?thesis
      proof (cases "key_equal t key (keys b i)")
        case True
        with lt False "1.prems" show ?thesis by (simp add: search_cells.simps [of t key tp b i])
      next
        case ne: False
        with lt False "1.prems" have "search_cells t key tp b (i + 1) = Found k"
          by (simp add: search_cells.simps [of t key tp b i])
        with "1.IH"(2) [OF lt False ne] show ?thesis by simp
      qed
    qed
  qed
qed

lemma bucketloop_Some:
  assumes "bucketloop t h key tp b = Some (Some (a, k))"
  shows "a \<noteq> 0 \<and> k < bucketCnt \<and> topbits (mem h a) k = tp \<and>
    key_equal t key (keys (mem h a) k)"
proof -
  let ?P = "\<lambda>t h key tp (b::nat) r. \<forall>a k. r = Some (a, k) \<longrightarrow>
     a \<noteq> 0 \<and> k < bucketCnt \<and> topbits (mem h a) k = tp \<and> key_equal t key (keys (mem h a) k)"
  have "?P t h key tp b (Some (a, k))"
  proof (rule bucketloop.raw_induct [where P = ?P, OF _ assms], goal_cases)
    case (1 bl t h key tp b r)
    show ?case
    proof (cases "b = 0")
      case True
      with 1(2) show ?thesis by auto
    next
      case False
      show ?thesis
      proof (cases "search_cells t key tp (mem h b) 0")
        case (Found i)
        with False 1(2) search_cells_Found [OF Found] show ?thesis by auto
      next
        case Stop
        with False 1(2) show ?thesis by auto
      next
        case Cont
        with False 1(2) have "bl t h key tp (overflow h b) = Some r" by simp
        from 1(1) [OF this] show ?thesis .
      qed
    qed
  qed
  then show ?thesis by simp
qed

lemma search_cells_absent:
  assumes "\<forall>j<bucketCnt. topbits b j = tp \<longrightarrow> \<not> key_equal t key (keys b j)"
  shows "search_cells t key tp b i = Stop \<or> search_cells t key tp b i = Cont"
proof (cases "search_cells t key tp b i")
  case (Found k)
  from search_cells_Found [OF this] assms show ?thesis by auto
qed simp_all

lemma bucketloop_absent:
  assumes "is_chain h b as"
    and "\<forall>a\<in>set as. \<forall>j<bucketCnt. topbits (mem h a) j = tp \<longrightarrow>
           \<not> key_equal t key (keys (mem h a) j)"
  shows "bucketloop t h key tp b = Some None"
  using assms
proof (induction as arbitrary: b)
  case Nil
  then show ?case by (simp add: bucketloop.simps)
next
  case (Cons a as)
  then have b: "b \<noteq> 0" "a = b" and ch: "is_chain h (overflow h b) as" by simp_all
  from Cons.prems(2) b
  have "\<forall>j<bucketCnt. topbits (mem h b) j = tp \<longrightarrow> \<not> key_equal t key (keys (mem h b) j)"
    by simp
  from search_cells_absent [OF this, of 0]
  show ?case
  proof
    assume "search_cells t key tp (mem h b) 0 = Stop"
    with b show ?thesis by (simp add: bucketloop.simps [of t h key tp b])
  next
    assume "search_cells t key tp (mem h b) 0 = Cont"
    moreover have "bucketloop t h key tp (overflow h b) = Some None"
      using Cons.IH [OF ch] Cons.prems(2) by simp
    ultimately show ?thesis using b by (simp add: bucketloop.simps [of t h key tp b])
  qed
qed

section \<open>Words, flags and the load factor\<close>

lemma flag_tests:
  "((f::uint8) AND 1 = 0) = (\<not> bit f 0)"
  "((f::uint8) AND 2 = 0) = (\<not> bit f 1)"
  "((f::uint8) AND 4 = 0) = (\<not> bit f 2)"
  "((f::uint8) AND 8 = 0) = (\<not> bit f 3)"
  using and_exp_eq_0_iff_not_bit [of f 0] and_exp_eq_0_iff_not_bit [of f 1]
    and_exp_eq_0_iff_not_bit [of f 2] and_exp_eq_0_iff_not_bit [of f 3]
  by simp_all

lemmas flag_defs = iterator_def oldIterator_def hashWriting_def sameSizeGrow_def
  is_sameSizeGrow_def flag_tests

lemma unat_2p: "n < LENGTH('a) \<Longrightarrow> unat (2 ^ n :: 'a::len word) = 2 ^ n"
proof -
  assume n: "n < LENGTH('a)"
  have "(2 ^ n :: 'a word) = of_nat (2 ^ n)" by simp
  then have "unat (2 ^ n :: 'a word) = 2 ^ n mod 2 ^ LENGTH('a)" by (simp only: unat_of_nat)
  also have "\<dots> = 2 ^ n" using n by simp
  finally show ?thesis .
qed

lemma unat_push_bit_1: "n < LENGTH('a) \<Longrightarrow> unat (push_bit n 1 :: 'a::len word) = 2 ^ n"
  by (simp add: push_bit_of_1 unat_2p)

lemma and15: "unat ((b::uint8) AND 15) = unat b mod 16"
proof -
  have "(b AND 15) = take_bit 4 b" by (simp add: take_bit_eq_mask mask_eq_exp_minus_1)
  then show ?thesis by (simp add: take_bit_eq_mod unat_mod)
qed

lemma tooManyOverflowBuckets_iff:
  "tooManyOverflowBuckets nov b \<longleftrightarrow> 2 ^ min (unat b) 15 \<le> unat nov"
proof -
  let ?b = "if b > 15 then 15 else b"
  have le: "unat ?b \<le> 15" by (auto simp: word_less_nat_alt)
  have m: "unat ?b = min (unat b) 15" by (auto simp: word_less_nat_alt min_def)
  have "unat (?b AND 15) = unat ?b" using le by (simp only: and15) simp
  moreover have "unat (push_bit (unat ?b) 1 :: uint16) = 2 ^ unat ?b"
    using le by (intro unat_push_bit_1) simp
  ultimately show ?thesis
    by (simp add: tooManyOverflowBuckets_def Let_def word_le_nat_alt m)
qed

lemma bucketShift_unat: "unat b < 64 \<Longrightarrow> unat (bucketShift b) = 2 ^ unat b"
  by (simp add: bucketShift_def and63 push_bit_of_1 unat_2p)

lemma overLoadFactor_iff:
  assumes b: "unat b \<le> 62" and n: "0 \<le> sint n"
  shows "overLoadFactor n b \<longleftrightarrow> 8 < sint n \<and> 13 * 2 ^ unat b < 2 * sint n"
proof -
  have un: "uint n = sint n" using n by (rule sint_nonneg_uint)
  then have un': "int (unat n) = sint n" by simp
  have lt: "sint n < 2 ^ 63" using sint_lt [of n] by simp
  have s8: "(8 <s n) = (8 < sint n)" by (simp add: word_sless_alt)
  let ?w = "loadFactorNum * (bucketShift b div loadFactorDen)"
  have sh: "unat (bucketShift b) = 2 ^ unat b" using b by (intro bucketShift_unat) simp
  have dv: "unat (bucketShift b div loadFactorDen) = 2 ^ unat b div 2"
    by (simp add: unat_div sh loadFactorDen_def)
  have "(?w < n) = (unat ?w < unat n)" by (rule word_less_nat_alt)
  also have "\<dots> = (int (unat ?w) < int (unat n))" by (simp only: of_nat_less_iff)
  finally have cmp: "(?w < n) = (int (unat ?w) < sint n)" by (simp only: un')
  consider "unat b = 0" | "1 \<le> unat b \<and> unat b \<le> 61" | "unat b = 62" using b by linarith
  then have "(int (unat ?w) < sint n) = (13 * 2 ^ unat b < 2 * sint n) \<or> \<not> 8 < sint n"
  proof cases
    case 1
    then have "unat ?w = 0" using dv by (simp add: unat_eq_zero loadFactorNum_def)
    then show ?thesis using 1 by auto
  next
    case 2
    then obtain k where k: "unat b = Suc k" "k \<le> 60" by (cases "unat b") auto
    then have d: "unat (bucketShift b div loadFactorDen) = 2 ^ k" using dv by simp
    have "(2::nat) ^ k \<le> 2 ^ 60" using k by (intro power_increasing) auto
    then have "13 * (2::nat) ^ k < 2 ^ 64" by simp
    then have "unat ?w = 13 * 2 ^ k"
      using d by (simp add: unat_mult_lem [THEN iffD1] loadFactorNum_def)
    then show ?thesis using k by simp
  next
    case 3
    then have "unat (bucketShift b div loadFactorDen) = 2 ^ 61" using dv by simp
    then have "unat (bucketShift b div loadFactorDen) = unat (2305843009213693952 :: uintptr)"
      by simp
    then have "bucketShift b div loadFactorDen = 2305843009213693952"
      by (simp only: word_unat_eq_iff)
    then have "unat ?w = 11529215046068469760" by (simp add: loadFactorNum_def)
    then show ?thesis using lt 3 by simp
  qed
  then show ?thesis unfolding overLoadFactor_def s8 cmp
    by (auto simp: bucketCnt_def bucketCntBits_def word_sless_alt)
qed





section \<open>What the helpers leave alone\<close>

text \<open>
  The header fields are the record extension of the heap: an operation that only writes
  buckets or allocates leaves \<open>heap.more\<close> as it is.
\<close>

lemma incrnoverflow_fields:
  "count (incrnoverflow h) = count h \<and> flags (incrnoverflow h) = flags h \<and>
   B (incrnoverflow h) = B h \<and> hash0 (incrnoverflow h) = hash0 h \<and>
   buckets (incrnoverflow h) = buckets h \<and> oldbuckets (incrnoverflow h) = oldbuckets h \<and>
   nevacuate (incrnoverflow h) = nevacuate h \<and> extra (incrnoverflow h) = extra h \<and>
   mem (incrnoverflow h) = mem h \<and> brk (incrnoverflow h) = brk h"
  by (simp add: incrnoverflow_def fastrand_def Let_def split: prod.splits)

lemma newoverflow_fields:
  "count (snd (newoverflow t b h)) = count h \<and> flags (snd (newoverflow t b h)) = flags h \<and>
   B (snd (newoverflow t b h)) = B h \<and> hash0 (snd (newoverflow t b h)) = hash0 h \<and>
   buckets (snd (newoverflow t b h)) = buckets h \<and>
   oldbuckets (snd (newoverflow t b h)) = oldbuckets h \<and>
   nevacuate (snd (newoverflow t b h)) = nevacuate h"
  by (simp add: newoverflow_def incrnoverflow_fields createOverflow_def newobject_def
      setoverflow_def Let_def split: prod.splits option.splits)

lemma more_fields:
  assumes "heap.more h' = heap.more (h :: ('k, 'v) hmap)"
  shows "count h' = count h" "flags h' = flags h" "B h' = B h" "noverflow h' = noverflow h"
    "hash0 h' = hash0 h" "buckets h' = buckets h" "oldbuckets h' = oldbuckets h"
    "nevacuate h' = nevacuate h" "extra h' = extra h"
  using assms by (simp_all add: hmap.select_defs heap.select_defs)

lemma makeBucketArray_more: "heap.more (snd (makeBucketArray t b d h)) = heap.more h"
  by (simp add: makeBucketArray_def Let_def newarray_def memclr_def setoverflow_def
       split: sum.splits prod.splits)

lemma makeBucketArray_nbuckets_ok:
  "bucket_size t \<noteq> 0 \<Longrightarrow> \<exists>nb. makeBucketArray_nbuckets t b h = Inr nb"
  by (simp add: makeBucketArray_nbuckets_def Let_def)

lemma hashGrow_effect:
  assumes "hashGrow t h = (Inr (), h')"
  shows "oldbuckets h' = buckets h \<and> nevacuate h' = 0 \<and> noverflow h' = 0 \<and>
         count h' = count h \<and>
         (if overLoadFactor (count h + 1) (B h)
          then B h' = B h + 1 \<and> is_sameSizeGrow h' = is_sameSizeGrow h
          else B h' = B h \<and> is_sameSizeGrow h')"
proof (cases "overLoadFactor (count h + 1) (B h)")
  case True
  obtain r h1 where mb: "makeBucketArray t (B h + 1) 0 h = (r, h1)"
    by (cases "makeBucketArray t (B h + 1) 0 h") auto
  from makeBucketArray_more [of t "B h + 1" 0 h] mb
  have fr: "heap.more h1 = heap.more h" by simp
  note f = more_fields [OF fr]
  from assms mb True obtain nb nx where r: "r = Inr (nb, nx)"
    by (cases r) (auto simp: hashGrow_def Let_def)
  from assms mb True r show ?thesis
    by (auto simp: hashGrow_def Let_def f flag_defs bit_simps
        split: option.splits if_splits)
next
  case False
  let ?h0 = "h\<lparr>flags := flags h OR sameSizeGrow\<rparr>"
  obtain r h1 where mb: "makeBucketArray t (B h) 0 ?h0 = (r, h1)"
    by (cases "makeBucketArray t (B h) 0 ?h0") auto
  from makeBucketArray_more [of t "B h" 0 ?h0] mb
  have fr: "heap.more h1 = heap.more ?h0" by simp
  note f = more_fields [OF fr]
  from assms mb False obtain nb nx where r: "r = Inr (nb, nx)"
    by (cases r) (auto simp: hashGrow_def Let_def)
  from assms mb False r show ?thesis
    by (auto simp: hashGrow_def Let_def f flag_defs bit_simps
        split: option.splits if_splits)
qed


lemma makeBucketArray_ok:
  assumes "bucket_size t \<noteq> 0"
  shows "\<exists>bk nx h'. makeBucketArray t b d h = (Inr (bk, nx), h')"
  using makeBucketArray_nbuckets_ok [OF assms, of b h]
  by (auto simp: makeBucketArray_def Let_def split: prod.splits if_splits)

lemma hashGrow_ok:
  assumes "bucket_size t \<noteq> 0"
    and "\<forall>x. extra h = Some x \<longrightarrow> extra_overflow x = None \<or> extra_oldoverflow x = None"
  shows "\<exists>h'. hashGrow t h = (Inr (), h')"
proof -
  let ?olf = "overLoadFactor (count h + 1) (B h)"
  let ?h0 = "if ?olf then h else h\<lparr>flags := flags h OR sameSizeGrow\<rparr>"
  let ?b = "B h + (if ?olf then 1 else 0)"
  obtain bk nx h1 where mb: "makeBucketArray t ?b 0 ?h0 = (Inr (bk, nx), h1)"
    using makeBucketArray_ok [OF assms(1), of ?b 0 ?h0] by blast
  from makeBucketArray_more [of t ?b 0 ?h0] mb
  have fr: "heap.more h1 = heap.more ?h0" by simp
  have ex: "extra h1 = extra h" using more_fields(9) [OF fr] by (simp split: if_splits)
  show ?thesis
  proof (cases ?olf)
    case True
    with mb ex assms(2) show ?thesis
      by (auto simp: hashGrow_def Let_def split: option.splits)
  next
    case False
    with mb ex assms(2) show ?thesis
      by (auto simp: hashGrow_def Let_def split: option.splits)
  qed
qed

lemma newoverflow_topbits:
  assumes "fst (newoverflow t c h) \<noteq> a"
  shows "topbits (mem (snd (newoverflow t c h)) a) = topbits (mem h a)"
  using assms
  by (auto simp: newoverflow_def Let_def incrnoverflow_fields createOverflow_def
      setoverflow_def newobject_def split: prod.splits option.splits if_splits)

section \<open>Fresh bucket arrays\<close>

lemma pool_count:
  assumes b4: "4 \<le> b" and b64: "unat b < 64" and sz: "bucket_size t \<noteq> 0"
    and fit: "unat (bucket_size t) * (2 ^ unat b + 2 ^ (unat b - 4)) < 2 ^ 64"
    and ru: "bucket_size t * (bucketShift b + bucketShift (b - 4)) \<le>
             roundupsize h (bucket_size t * (bucketShift b + bucketShift (b - 4)))"
  shows "\<exists>nb. makeBucketArray_nbuckets t b h = Inr nb \<and>
           nb = (if roundupsize h (bucket_size t * (bucketShift b + bucketShift (b - 4))) =
                    bucket_size t * (bucketShift b + bucketShift (b - 4))
                 then bucketShift b + bucketShift (b - 4)
                 else roundupsize h (bucket_size t * (bucketShift b + bucketShift (b - 4)))
                        div bucket_size t) \<and>
           unat (bucketShift b) = 2 ^ unat b \<and> 2 ^ unat b + 2 ^ (unat b - 4) \<le> unat nb"
proof -
  let ?base = "bucketShift b" and ?e = "bucketShift (b - 4)"
  let ?sz = "bucket_size t * (?base + ?e)"
  let ?up = "roundupsize h ?sz"
  let ?nb = "if ?up = ?sz then ?base + ?e else ?up div bucket_size t"
  from b4 have u4: "unat (b - 4) = unat b - 4" by (simp add: unat_sub)
  have ub: "unat ?base = 2 ^ unat b" using b64 by (rule bucketShift_unat)
  have ue: "unat ?e = 2 ^ (unat b - 4)" using b64 u4 by (simp add: bucketShift_unat)
  from sz have s1: "1 \<le> unat (bucket_size t)" by (simp add: unat_gt_0 Suc_le_eq)
  have "(2::nat) ^ unat b + 2 ^ (unat b - 4) \<le> unat (bucket_size t) * (2 ^ unat b + 2 ^ (unat b - 4))"
    using mult_le_mono1 [OF s1, of "2 ^ unat b + 2 ^ (unat b - 4)"] by simp
  from this fit have lt: "(2::nat) ^ unat b + 2 ^ (unat b - 4) < 2 ^ 64" by (rule le_less_trans)
  then have "unat ?base + unat ?e < 2 ^ LENGTH(64)" by (simp add: ub ue)
  then have "unat (?base + ?e) = unat ?base + unat ?e" by (rule unat_add_lem [THEN iffD1])
  then have un: "unat (?base + ?e) = 2 ^ unat b + 2 ^ (unat b - 4)" by (simp add: ub ue)
  from fit have "unat (bucket_size t) * unat (?base + ?e) < 2 ^ LENGTH(64)" by (simp add: un)
  then have usz: "unat ?sz = unat (bucket_size t) * unat (?base + ?e)"
    by (rule unat_mult_lem [THEN iffD1])
  have nbv: "makeBucketArray_nbuckets t b h = Inr ?nb"
    using b4 sz by (simp add: makeBucketArray_nbuckets_def Let_def)
  have ge: "2 ^ unat b + 2 ^ (unat b - 4) \<le> unat ?nb"
  proof (cases "?up = ?sz")
    case True
    then show ?thesis by (simp add: un)
  next
    case False
    from ru have "unat ?sz \<le> unat ?up" by (simp add: word_le_nat_alt)
    then have "unat ?sz div unat (bucket_size t) \<le> unat ?up div unat (bucket_size t)"
      by (rule div_le_mono)
    moreover have "unat ?sz div unat (bucket_size t) = unat (?base + ?e)"
      using s1 by (simp add: usz)
    ultimately have "unat (?base + ?e) \<le> unat (?up div bucket_size t)" by (simp add: unat_div)
    with False show ?thesis by (simp add: un)
  qed
  from nbv ub ge show ?thesis by blast
qed

lemma stride_size:
  assumes "valid_type t"
  shows "0 < stride t" and "unat (bucket_size t) = stride t" and "bucket_size t \<noteq> 0"
proof -
  from assms show s: "0 < stride t" by (simp add: valid_type_def stride_def unat_gt_0)
  have "unat (bucketsize t) < 2 ^ 16" using unsigned_less [of "bucketsize t"] by simp
  then have "unat (bucketsize t) < 2 ^ 64" by simp
  then have "take_bit 64 (unat (bucketsize t)) = unat (bucketsize t)"
    by (simp only: take_bit_nat_eq_self)
  with assms show u: "unat (bucket_size t) = stride t"
    by (simp add: valid_type_def stride_def unsigned_ucast_eq)
  from s u show "bucket_size t \<noteq> 0" by (auto simp: unat_eq_0 [symmetric] simp del: unat_eq_0)
qed

text \<open>
  \<^verbatim>\<open>makeBucketArray(t, b, nil)\<close>: the block it allocates, zeroed but for the mark on the
  last bucket of the pool.
\<close>

lemma makeBucketArray_fresh:
  assumes vt: "valid_type t" and b64: "unat b < 64"
    and fit: "4 \<le> b \<Longrightarrow> unat (bucket_size t) * (2 ^ unat b + 2 ^ (unat b - 4)) < 2 ^ 64"
    and ru: "4 \<le> b \<Longrightarrow> bucket_size t * (bucketShift b + bucketShift (b - 4)) \<le>
             roundupsize h (bucket_size t * (bucketShift b + bucketShift (b - 4)))"
    and nb: "makeBucketArray_nbuckets t b h = Inr nb"
    and mb: "makeBucketArray t b 0 h = (r, h')"
  shows "r = Inr (brk h, if 4 \<le> b then brk h + 2 ^ unat b * stride t else 0)"
    and "if 4 \<le> b then 2 ^ unat b + 2 ^ (unat b - 4) \<le> unat nb else unat nb = 2 ^ unat b"
    and "heap.more h' = heap.more h" and "brk h' = brk h + unat nb * stride t"
    and "rnd h' = rnd h" and "rnd_pos h' = rnd_pos h" and "roundupsize h' = roundupsize h"
    and "maxAlloc h' = maxAlloc h"
    and "\<And>a. mem h' a =
              (if 4 \<le> b \<and> a = brk h + (unat nb - 1) * stride t
               then (zero_bmap t)\<lparr>overflow_ptr := brk h\<rparr>
               else if brk h \<le> a \<and> a < brk h + unat nb * stride t then zero_bmap t
               else mem h a)"
proof -
  have "r = Inr (brk h, if 4 \<le> b then brk h + 2 ^ unat b * stride t else 0) \<and>
      (if 4 \<le> b then 2 ^ unat b + 2 ^ (unat b - 4) \<le> unat nb else unat nb = 2 ^ unat b) \<and>
      heap.more h' = heap.more h \<and> brk h' = brk h + unat nb * stride t \<and>
      rnd h' = rnd h \<and> rnd_pos h' = rnd_pos h \<and> roundupsize h' = roundupsize h \<and>
      maxAlloc h' = maxAlloc h \<and>
      (\<forall>a. mem h' a =
              (if 4 \<le> b \<and> a = brk h + (unat nb - 1) * stride t
               then (zero_bmap t)\<lparr>overflow_ptr := brk h\<rparr>
               else if brk h \<le> a \<and> a < brk h + unat nb * stride t then zero_bmap t
               else mem h a))"
  proof (cases "4 \<le> b")
    case False
    have ub: "unat (bucketShift b) = 2 ^ unat b" using b64 by (rule bucketShift_unat)
    from False nb have nbv: "nb = bucketShift b"
      by (simp add: makeBucketArray_nbuckets_def Let_def)
    let ?h' = "snd (newarray t (unat (bucketShift b)) h)"
    have "makeBucketArray t b 0 h = (Inr (brk h, 0), ?h')"
      using nb by (simp add: makeBucketArray_def nbv Let_def newarray_def split: prod.splits)
    with mb have rh: "r = Inr (brk h, 0)" "h' = ?h'" by simp_all
    have "heap.more ?h' = heap.more h" "brk ?h' = brk h + unat (bucketShift b) * stride t"
      "rnd ?h' = rnd h" "rnd_pos ?h' = rnd_pos h" "roundupsize ?h' = roundupsize h"
      "maxAlloc ?h' = maxAlloc h"
      "\<forall>a. mem ?h' a = (if brk h \<le> a \<and> a < brk h + unat (bucketShift b) * stride t
                           then zero_bmap t else mem h a)"
      by (simp_all add: newarray_def memclr_def Let_def stride_size(2) [OF vt])
    with rh False nbv ub show ?thesis by simp
  next
    case True
    note sz = stride_size [OF vt]
    from pool_count [OF True b64 sz(3) fit [OF True] ru [OF True]] nb have
      ub: "unat (bucketShift b) = 2 ^ unat b"
      and ge: "2 ^ unat b + 2 ^ (unat b - 4) \<le> unat nb" by auto
    from ge ub have "unat (bucketShift b) < unat nb"
      by (simp add: less_le_trans [of "2 ^ unat b" "2 ^ unat b + 2 ^ (unat b - 4)"])
    then have ne: "nb \<noteq> bucketShift b" by auto
    have "(0::nat) < 2 ^ unat b" by simp
    with ge have pos: "0 < unat nb" by linarith
    then have "nb \<noteq> 0" by (simp add: unat_gt_0)
    then have u1: "unat (nb - 1) = unat nb - 1" by (simp add: unat_minus_one)
    let ?last = "brk h + (unat nb - 1) * stride t"
    let ?h' = "setoverflow ?last (brk h) (snd (newarray t (unat nb) h))"
    have "makeBucketArray t b 0 h = (Inr (brk h, brk h + 2 ^ unat b * stride t), ?h')"
      using nb ne by (auto simp: makeBucketArray_def Let_def newarray_def u1 ub split: prod.splits)
    with mb have rh: "r = Inr (brk h, brk h + 2 ^ unat b * stride t)" "h' = ?h'" by simp_all
    from pos sz(1) have "(unat nb - 1) * stride t < unat nb * stride t" by simp
    then have inr: "brk h \<le> ?last \<and> ?last < brk h + unat nb * stride t" by simp
    have 2: "heap.more ?h' = heap.more h" "brk ?h' = brk h + unat nb * stride t"
      "rnd ?h' = rnd h" "rnd_pos ?h' = rnd_pos h" "roundupsize ?h' = roundupsize h"
      "maxAlloc ?h' = maxAlloc h"
      by (simp_all add: setoverflow_def newarray_def memclr_def Let_def sz(2))
    have 3: "\<forall>a. mem ?h' a = (if a = ?last then (zero_bmap t)\<lparr>overflow_ptr := brk h\<rparr>
                 else if brk h \<le> a \<and> a < brk h + unat nb * stride t then zero_bmap t
                 else mem h a)"
      using inr by (simp add: setoverflow_def newarray_def memclr_def Let_def sz(2))
    from True ge rh 2 3 show ?thesis by simp
  qed
  then show "r = Inr (brk h, if 4 \<le> b then brk h + 2 ^ unat b * stride t else 0)"
    and "if 4 \<le> b then 2 ^ unat b + 2 ^ (unat b - 4) \<le> unat nb else unat nb = 2 ^ unat b"
    and "heap.more h' = heap.more h" and "brk h' = brk h + unat nb * stride t"
    and "rnd h' = rnd h" and "rnd_pos h' = rnd_pos h" and "roundupsize h' = roundupsize h"
    and "maxAlloc h' = maxAlloc h"
    and "\<And>a. mem h' a =
              (if 4 \<le> b \<and> a = brk h + (unat nb - 1) * stride t
               then (zero_bmap t)\<lparr>overflow_ptr := brk h\<rparr>
               else if brk h \<le> a \<and> a < brk h + unat nb * stride t then zero_bmap t
               else mem h a)"
    by blast+
qed

section \<open>Detection of a writer in progress\<close>

text \<open>
  Claim C2, as amended. If \<^verbatim>\<open>hashWriting\<close> is set when a call enters a table that is not
  empty, then \<^verbatim>\<open>mapaccess1\<close> and \<^verbatim>\<open>mapaccess2\<close> throw ``concurrent map read and map
  write'', \<^verbatim>\<open>mapassign\<close>, \<^verbatim>\<open>mapdelete\<close> and \<^verbatim>\<open>mapclear\<close> throw ``concurrent map
  writes'' and leave the table as it is, and \<^verbatim>\<open>mapiternext\<close> throws ``concurrent map
  iteration and map write''. \<^verbatim>\<open>mapaccessK\<close> is not among them: it does not read the flag.
\<close>

theorem hashWriting_detected:
  assumes "flags h AND hashWriting \<noteq> 0" and "count h \<noteq> 0"
  shows "mapaccess1 t (Some h) key = Some (Inl (Throw ''concurrent map read and map write'')) \<and>
         mapaccess2 t (Some h) key = Some (Inl (Throw ''concurrent map read and map write'')) \<and>
         mapassign t (Some h) key = Some (Inl (Throw ''concurrent map writes''), Some h) \<and>
         mapdelete t (Some h) key = Some (Inl (Throw ''concurrent map writes''), Some h) \<and>
         mapclear t (Some h) = (Inl (Throw ''concurrent map writes''), Some h) \<and>
         mapiternext t h it = Some (Inl (Throw ''concurrent map iteration and map write''))"
  using assms
  by (simp add: mapaccess1_def mapaccess2_def mapassign_def mapdelete_def mapclear_def
      mapiternext_def)

text \<open>The table \<open>ex_writing\<close> has the flag set and one entry.\<close>

theorem hashWriting_detected_witness:
  "flags ex_writing AND hashWriting \<noteq> 0 \<and> count ex_writing \<noteq> 0 \<and>
   mapaccess1 ex_type (Some ex_writing) 1 =
     Some (Inl (Throw ''concurrent map read and map write'')) \<and>
   mapiternext ex_type ex_writing ex_iter =
     Some (Inl (Throw ''concurrent map iteration and map write''))"
proof -
  have a: "flags ex_writing AND hashWriting \<noteq> 0" "count ex_writing \<noteq> 0"
    by (simp_all add: ex_defs const_defs)
  show ?thesis
    using a hashWriting_detected [OF a, of ex_type 1 ex_iter] by simp
qed

text \<open>
  On the same table \<^verbatim>\<open>mapaccessK\<close> returns the key and element of the entry instead of
  throwing.
\<close>

theorem mapaccessK_unchecked_counterexample:
  "flags ex_writing AND hashWriting \<noteq> 0 \<and> count ex_writing \<noteq> 0 \<and>
   mapaccessK ex_type (Some ex_writing) 1 = Some (Inr (KeyAt 4096 0, ElemAt 4096 0))"
  by (simp add: ex_defs const_defs lookup_defs search_cells.simps)

section \<open>What a lookup returns\<close>

text \<open>
  Claim C4. \<^verbatim>\<open>mapaccess1\<close> never returns \<^verbatim>\<open>nil\<close>: a pointer it returns is the address of
  \<^verbatim>\<open>zeroVal\<close> or the element slot of a cell whose key equals the key looked up. On a
  \<^verbatim>\<open>nil\<close> or empty table it returns the address of \<^verbatim>\<open>zeroVal\<close>, after calling the hash
  function when the key type says it may panic, so that a panic of the hash function is
  what the call ends with. On a table that is not empty it returns the address of
  \<^verbatim>\<open>zeroVal\<close> for every key that no occupied cell of the bucket chain holds.
  \<^verbatim>\<open>zeroVal\<close> is 1024 zero bytes.
\<close>

theorem mapaccess1_never_nil:
  "(\<forall>p. mapaccess1 t hopt key = Some (Inr p) \<longrightarrow>
      p \<noteq> Nil \<and>
      (p = ZeroVal \<or>
       (\<exists>h b i. hopt = Some h \<and> p = ElemAt b i \<and> b \<noteq> 0 \<and> i < bucketCnt \<and>
          key_equal t key (keys (mem h b) i)))) \<and>
   (hopt = None \<or> (\<exists>h. hopt = Some h \<and> count h = 0) \<longrightarrow>
      mapaccess1 t hopt key =
        (if hashMightPanic t \<and> hasher t key 0 = None then Some (Inl HashPanic)
         else Some (Inr ZeroVal))) \<and>
   (\<forall>h hash as. hopt = Some h \<and> count h \<noteq> 0 \<and> flags h AND hashWriting = 0 \<and>
      hasher t key (ucast (hash0 h)) = Some hash \<and>
      is_chain h (lookup_bucket t h hash) as \<and>
      (\<forall>a\<in>set as. \<forall>j<bucketCnt. minTopHash \<le> topbits (mem h a) j \<longrightarrow>
         \<not> key_equal t key (keys (mem h a) j)) \<longrightarrow>
      mapaccess1 t hopt key = Some (Inr ZeroVal)) \<and>
   length zeroVal = 1024 \<and> set zeroVal = {0}"
proof (intro conjI allI impI)
  fix p assume a: "mapaccess1 t hopt key = Some (Inr p)"
  then show "p \<noteq> Nil"
    by (auto simp: mapaccess1_def split: option.splits if_splits)
  show "p = ZeroVal \<or>
       (\<exists>h b i. hopt = Some h \<and> p = ElemAt b i \<and> b \<noteq> 0 \<and> i < bucketCnt \<and>
          key_equal t key (keys (mem h b) i))"
  proof (cases "p = ZeroVal")
    case False
    with a obtain h hash b i where h: "hopt = Some h" and p: "p = ElemAt b i"
      and "bucketloop t h key (tophash hash) (lookup_bucket t h hash) = Some (Some (b, i))"
      by (auto simp: mapaccess1_def split: option.splits if_splits)
    from bucketloop_Some [OF this(3)] h p show ?thesis by simp
  qed simp
next
  assume "hopt = None \<or> (\<exists>h. hopt = Some h \<and> count h = 0)"
  then show "mapaccess1 t hopt key =
         (if hashMightPanic t \<and> hasher t key 0 = None then Some (Inl HashPanic)
          else Some (Inr ZeroVal))"
    by (auto simp: mapaccess1_def split: option.splits)
next
  fix h hash as
  assume a: "hopt = Some h \<and> count h \<noteq> 0 \<and> flags h AND hashWriting = 0 \<and>
       hasher t key (ucast (hash0 h)) = Some hash \<and>
       is_chain h (lookup_bucket t h hash) as \<and>
       (\<forall>a\<in>set as. \<forall>j<bucketCnt. minTopHash \<le> topbits (mem h a) j \<longrightarrow>
          \<not> key_equal t key (keys (mem h a) j))"
  then have "\<forall>a\<in>set as. \<forall>j<bucketCnt. topbits (mem h a) j = tophash hash \<longrightarrow>
      \<not> key_equal t key (keys (mem h a) j)"
    using minTopHash_le_tophash [of hash] by auto
  with a have "bucketloop t h key (tophash hash) (lookup_bucket t h hash) = Some None"
    by (intro bucketloop_absent [where as = as]) auto
  with a show "mapaccess1 t hopt key = Some (Inr ZeroVal)"
    by (simp add: mapaccess1_def)
next
  show "length zeroVal = 1024" by (simp add: zeroVal_def maxZero_def)
  show "set zeroVal = {0}" by (simp add: zeroVal_def maxZero_def)
qed

text \<open>
  A \<^verbatim>\<open>nil\<close> table under a hash function that panics on the key, a \<^verbatim>\<open>nil\<close> table under
  one that does not, and the table \<open>ex_one\<close>, whose one bucket does not hold the key 4.
\<close>

theorem mapaccess1_never_nil_witness:
  "mapaccess1 trap_type None 0 = Some (Inl HashPanic) \<and>
   mapaccess1 ex_type None 0 = Some (Inr ZeroVal) \<and>
   count ex_one \<noteq> 0 \<and> flags ex_one AND hashWriting = 0 \<and>
   hasher ex_type 4 (ucast (hash0 ex_one)) = Some 4 \<and>
   is_chain ex_one (lookup_bucket ex_type ex_one 4) [4096] \<and>
   mapaccess1 ex_type (Some ex_one) 4 = Some (Inr ZeroVal)"
proof -
  have 1: "mapaccess1 trap_type None 0 = Some (Inl HashPanic)"
    using mapaccess1_never_nil [of trap_type None 0] by (simp add: ex_defs)
  have 2: "mapaccess1 ex_type None 0 = Some (Inr ZeroVal)"
    using mapaccess1_never_nil [of ex_type None 0] by (simp add: ex_defs)
  have 3: "count ex_one \<noteq> 0" "flags ex_one AND hashWriting = 0"
    "hasher ex_type 4 (ucast (hash0 ex_one)) = Some 4"
    "is_chain ex_one (lookup_bucket ex_type ex_one 4) [4096]"
    by (simp_all add: ex_defs const_defs lookup_defs)
  have 4: "\<forall>a\<in>set [4096]. \<forall>j<bucketCnt. minTopHash \<le> topbits (mem ex_one a) j \<longrightarrow>
       \<not> key_equal ex_type 4 (keys (mem ex_one a) j)"
    by (simp add: ex_defs const_defs)
  have 5: "mapaccess1 ex_type (Some ex_one) 4 = Some (Inr ZeroVal)"
    using mapaccess1_never_nil [of ex_type "Some ex_one" 4] 3 4 by blast
  from 1 2 3 5 show ?thesis by blast
qed

section \<open>A panic of the hash function\<close>



section \<open>The decision to grow\<close>

text \<open>
  Claim C3. Take a table that is not growing and a key for which the walk of \<^verbatim>\<open>mapassign\<close>
  finds no mapping. If \<^verbatim>\<open>overLoadFactor(h.count+1, h.B)\<close> or
  \<^verbatim>\<open>tooManyOverflowBuckets(h.noverflow, h.B)\<close> holds, the pass calls \<^verbatim>\<open>hashGrow\<close> and
  goes back to \<^verbatim>\<open>again\<close>; \<^verbatim>\<open>hashGrow\<close> makes the current array the old one, and it adds
  one to \<open>B\<close> exactly when the load factor condition holds, and otherwise keeps \<open>B\<close> and
  sets \<^verbatim>\<open>sameSizeGrow\<close>. If neither holds, the pass inserts the key and no grow is
  started. The overflow condition is \<open>noverflow \<ge> 2 ^ min B 15\<close>; for \<open>B \<le> 62\<close> and a
  count that has not overflowed, the load factor condition is \<open>count + 1 > 8\<close> and
  \<open>count + 1 > 13 / 2 * 2 ^ B\<close>.
\<close>

theorem grow_decision:
  assumes "\<not> growing h"
    and "assign_loop t h key (tophash hash)
           (buckets h + unat (hash AND bucketMask (B h)) * stride t) None = Some (None, ins, lb)"
  shows "(if overLoadFactor (count h + 1) (B h) \<or> tooManyOverflowBuckets (noverflow h) (B h)
          then mapassign_pass t key hash h =
                 Some (case hashGrow t h of (Inl e, h') \<Rightarrow> Failed e h'
                                          | (Inr u, h') \<Rightarrow> Again h') \<and>
               (\<forall>h'. hashGrow t h = (Inr (), h') \<longrightarrow>
                  oldbuckets h' = buckets h \<and> nevacuate h' = 0 \<and>
                  (if overLoadFactor (count h + 1) (B h)
                   then B h' = B h + 1 \<and> is_sameSizeGrow h' = is_sameSizeGrow h
                   else B h' = B h \<and> is_sameSizeGrow h'))
          else (\<exists>b i h'. mapassign_pass t key hash h = Some (Done b i h') \<and>
                  \<not> growing h' \<and> B h' = B h \<and> buckets h' = buckets h \<and>
                  flags h' = flags h)) \<and>
         (tooManyOverflowBuckets (noverflow h) (B h) \<longleftrightarrow>
            2 ^ min (unat (B h)) 15 \<le> unat (noverflow h)) \<and>
         (unat (B h) \<le> 62 \<and> 0 \<le> sint (count h + 1) \<longrightarrow>
            (overLoadFactor (count h + 1) (B h) \<longleftrightarrow>
               8 < sint (count h + 1) \<and> 13 * 2 ^ unat (B h) < 2 * sint (count h + 1)))"
proof (intro conjI impI)
  show "if overLoadFactor (count h + 1) (B h) \<or> tooManyOverflowBuckets (noverflow h) (B h)
          then mapassign_pass t key hash h =
                 Some (case hashGrow t h of (Inl e, h') \<Rightarrow> Failed e h'
                                          | (Inr u, h') \<Rightarrow> Again h') \<and>
               (\<forall>h'. hashGrow t h = (Inr (), h') \<longrightarrow>
                  oldbuckets h' = buckets h \<and> nevacuate h' = 0 \<and>
                  (if overLoadFactor (count h + 1) (B h)
                   then B h' = B h + 1 \<and> is_sameSizeGrow h' = is_sameSizeGrow h
                   else B h' = B h \<and> is_sameSizeGrow h'))
          else (\<exists>b i h'. mapassign_pass t key hash h = Some (Done b i h') \<and>
                  \<not> growing h' \<and> B h' = B h \<and> buckets h' = buckets h \<and>
                  flags h' = flags h)"
  proof (cases "overLoadFactor (count h + 1) (B h) \<or> tooManyOverflowBuckets (noverflow h) (B h)")
    case True
    have "mapassign_pass t key hash h =
                 Some (case hashGrow t h of (Inl e, h') \<Rightarrow> Failed e h'
                                          | (Inr u, h') \<Rightarrow> Again h')"
      using assms True by (auto simp: mapassign_pass_def Let_def split: prod.splits sum.splits)
    moreover have "\<forall>h'. hashGrow t h = (Inr (), h') \<longrightarrow>
                  oldbuckets h' = buckets h \<and> nevacuate h' = 0 \<and>
                  (if overLoadFactor (count h + 1) (B h)
                   then B h' = B h + 1 \<and> is_sameSizeGrow h' = is_sameSizeGrow h
                   else B h' = B h \<and> is_sameSizeGrow h')"
      using hashGrow_effect [of t h] by auto
    ultimately show ?thesis using True by simp
  next
    case False
    have "\<exists>b i h'. mapassign_pass t key hash h = Some (Done b i h') \<and>
                  \<not> growing h' \<and> B h' = B h \<and> buckets h' = buckets h \<and> flags h' = flags h"
      using assms False newoverflow_fields [of t lb h]
      by (auto simp: mapassign_pass_def Let_def growing_def set_key_def set_elem_def
          set_tophash_def split: prod.splits option.splits)
    then show ?thesis using False by simp
  qed
next
  show "tooManyOverflowBuckets (noverflow h) (B h) \<longleftrightarrow>
            2 ^ min (unat (B h)) 15 \<le> unat (noverflow h)"
    by (rule tooManyOverflowBuckets_iff)
next
  assume "unat (B h) \<le> 62 \<and> 0 \<le> sint (count h + 1)"
  then show "overLoadFactor (count h + 1) (B h) \<longleftrightarrow>
               8 < sint (count h + 1) \<and> 13 * 2 ^ unat (B h) < 2 * sint (count h + 1)"
    by (intro overLoadFactor_iff) auto
qed


text \<open>
  The key 2 finds no mapping in \<open>ex_one\<close>, which holds one entry: no grow. The key 9
  finds none in \<open>ex_full\<close>, whose one bucket holds eight entries: the table doubles.
\<close>

theorem grow_decision_witness:
  "\<not> growing ex_one \<and>
   assign_loop ex_type ex_one 2 (tophash 2)
     (buckets ex_one + unat (2 AND bucketMask (B ex_one)) * stride ex_type) None =
       Some (None, Some (4096, 1), 4096) \<and>
   (\<exists>b i h'. mapassign_pass ex_type 2 2 ex_one = Some (Done b i h') \<and> \<not> growing h' \<and>
      B h' = B ex_one) \<and>
   \<not> growing ex_full \<and>
   assign_loop ex_type ex_full 9 (tophash 9)
     (buckets ex_full + unat (9 AND bucketMask (B ex_full)) * stride ex_type) None =
       Some (None, None, 4096) \<and>
   overLoadFactor (count ex_full + 1) (B ex_full) \<and>
   (\<exists>h'. mapassign_pass ex_type 9 9 ex_full = Some (Again h') \<and> B h' = B ex_full + 1 \<and>
      oldbuckets h' = buckets ex_full)"
proof -
  have a: "\<not> growing ex_one" "\<not> growing ex_full"
    by (simp_all add: growing_def ex_defs ex_full_def)
  have b: "assign_loop ex_type ex_one 2 (tophash 2)
     (buckets ex_one + unat (2 AND bucketMask (B ex_one)) * stride ex_type) None =
       Some (None, Some (4096, 1), 4096)"
    by (simp add: ex_defs const_defs lookup_defs assign_loop.simps assign_cells.simps)
  have c: "\<not> (overLoadFactor (count ex_one + 1) (B ex_one) \<or>
              tooManyOverflowBuckets (noverflow ex_one) (B ex_one))"
    by (simp add: ex_defs const_defs overLoadFactor_def tooManyOverflowBuckets_def
        word_sless_alt)
  have d: "assign_loop ex_type ex_full 9 (tophash 9)
     (buckets ex_full + unat (9 AND bucketMask (B ex_full)) * stride ex_type) None =
       Some (None, None, 4096)"
    by (simp add: ex_defs ex_full_def const_defs lookup_defs assign_loop.simps
        assign_cells.simps)
  have e: "overLoadFactor (count ex_full + 1) (B ex_full)"
    by (simp add: ex_defs ex_full_def const_defs overLoadFactor_def bucketShift_def
        word_sless_alt)
  obtain h' where g: "hashGrow ex_type ex_full = (Inr (), h')"
    using hashGrow_ok [of ex_type ex_full] by (auto simp: ex_defs ex_full_def)
  from grow_decision [OF a(1) b] c
  have 1: "\<exists>b i h'. mapassign_pass ex_type 2 2 ex_one = Some (Done b i h') \<and> \<not> growing h' \<and>
      B h' = B ex_one"
    by auto
  from grow_decision [OF a(2) d] e g
  have 2: "\<exists>h'. mapassign_pass ex_type 9 9 ex_full = Some (Again h') \<and> B h' = B ex_full + 1 \<and>
      oldbuckets h' = buckets ex_full"
    by auto
  from a b d e 1 2 show ?thesis by blast
qed

section \<open>Creation\<close>

lemma makemap_B_spec:
  "unat b \<le> 61 \<Longrightarrow>
     b \<le> makemap_B hint b \<and> unat (makemap_B hint b) \<le> 61 \<and>
     \<not> overLoadFactor hint (makemap_B hint b) \<and>
     (\<forall>c. b \<le> c \<and> c < makemap_B hint b \<longrightarrow> overLoadFactor hint c)"
proof (induction hint b rule: makemap_B.induct)
  case (1 hint b)
  show ?case
  proof (cases "overLoadFactor hint b")
    case False
    then show ?thesis using "1.prems" by (auto simp: makemap_B.simps [of hint b])
  next
    case True
    from overLoadFactor_shift [OF True] "1.prems" have lt: "unat b \<le> 60"
      by (cases "unat b = 61") auto
    then have s: "unat (b + 1) = unat b + 1" by (simp add: unat_word_ariths)
    then have le: "unat (b + 1) \<le> 61" using lt by simp
    note ih = "1.IH" [OF True le]
    have r: "makemap_B hint b = makemap_B hint (b + 1)"
      using True by (simp add: makemap_B.simps [of hint b])
    have bl: "b \<le> b + 1" using s by (simp add: word_le_nat_alt)
    show ?thesis
    proof (intro conjI allI impI)
      show "b \<le> makemap_B hint b" using ih bl r by auto
      show "unat (makemap_B hint b) \<le> 61" using ih r by simp
      show "\<not> overLoadFactor hint (makemap_B hint b)" using ih r by simp
    next
      fix c assume c: "b \<le> c \<and> c < makemap_B hint b"
      show "overLoadFactor hint c"
      proof (cases "c = b")
        case True then show ?thesis using \<open>overLoadFactor hint b\<close> by simp
      next
        case False
        with c have "b < c" by auto
        then have "unat b < unat c" by (simp add: word_less_nat_alt)
        then have "b + 1 \<le> c" using s by (simp add: word_le_nat_alt)
        with c ih r show ?thesis by auto
      qed
    qed
  qed
qed

text \<open>A hint fits the \<^verbatim>\<open>int\<close> of the platform when its value is in the range of that type.\<close>

lemma makemap64_hint_fits:
  assumes "LENGTH('i::len) \<le> 64"
  shows "makemap64_hint TYPE('i) hint =
     (if - (2 ^ (LENGTH('i) - 1)) \<le> sint hint \<and> sint hint < 2 ^ (LENGTH('i) - 1) then hint else 0)"
proof -
  let ?n = "LENGTH('i) - 1"
  let ?r = "scast (scast hint :: 'i word) :: 64 word"
  have "sint ?r = signed_take_bit (LENGTH(64) - Suc 0) (sint (scast hint :: 'i word))"
    by (rule signed_scast_eq)
  moreover have "sint (scast hint :: 'i word) = signed_take_bit (LENGTH('i) - Suc 0) (sint hint)"
    by (rule signed_scast_eq)
  ultimately have "sint ?r = signed_take_bit 63 (signed_take_bit ?n (sint hint))" by simp
  moreover from assms have "min 63 ?n = ?n" by simp
  ultimately have s: "sint ?r = signed_take_bit ?n (sint hint)"
    by (simp only: signed_take_bit_signed_take_bit)
  have "(?r = hint) = (sint ?r = sint hint)" by (auto intro: signed_word_eqI)
  also have "\<dots> = (- (2 ^ ?n) \<le> sint hint \<and> sint hint < 2 ^ ?n)"
    unfolding s by (rule signed_take_bit_int_eq_self_iff)
  finally show ?thesis by (simp add: makemap64_hint_def)
qed

text \<open>The test of \<^verbatim>\<open>makemap\<close> on the hint, read on the numbers.\<close>

lemma makemap_hint_clamp:
  "makemap_hint t hint ma =
     (if 2 ^ 64 \<le> unat hint * unat (bucket_size t) \<or> unat ma < unat hint * unat (bucket_size t)
      then 0 else hint)"
proof (cases "2 ^ 64 \<le> unat hint * unat (bucket_size t)")
  case True
  then show ?thesis by (simp add: makemap_hint_def MulUintptr_def)
next
  case False
  then have "unat hint * unat (bucket_size t) < 2 ^ LENGTH(64)" by simp
  then have "unat (hint * bucket_size t) = unat hint * unat (bucket_size t)"
    by (rule unat_mult_lem [THEN iffD1])
  with False show ?thesis by (simp add: makemap_hint_def MulUintptr_def word_less_nat_alt)
qed

text \<open>
  A hint over the load factor at \<open>b\<close> is at least the number of buckets asked of the
  allocator for \<open>b + 1\<close>.
\<close>

lemma request_le_hint:
  assumes o: "overLoadFactor e b" and b: "unat b \<le> 60"
  shows "2 ^ (unat b + 1) + (if 4 \<le> unat b + 1 then 2 ^ (unat b + 1 - 4) else 0) \<le> unat e"
proof -
  from o have "8 <s e" by (simp add: overLoadFactor_def bucketCnt_def bucketCntBits_def)
  then have s8: "8 < sint e" by (simp add: word_sless_alt)
  then have nn: "0 \<le> sint e" by simp
  from b have "unat b \<le> 62" by simp
  from overLoadFactor_iff [OF this nn] o have l: "13 * 2 ^ unat b < 2 * sint e" by simp
  have "uint e = sint e" using nn by (rule sint_nonneg_uint)
  then have ue: "int (unat e) = sint e" by simp
  from l have l': "13 * 2 ^ unat b < 2 * unat e"
    unfolding ue [symmetric] by (metis (mono_tags) of_nat_less_iff of_nat_mult of_nat_numeral of_nat_power)
  show ?thesis
  proof (cases "4 \<le> unat b + 1")
    case False
    with l' show ?thesis by simp
  next
    case True
    then obtain k where k: "unat b = k + 3" by (metis add.commute le_Suc_ex numeral_3_eq_3 Suc_eq_plus1 add_Suc_right Suc_le_mono numeral_Bit0 add_2_eq_Suc' numeral_2_eq_2)
    with l' True show ?thesis by (simp add: power_add)
  qed
qed

lemma makeBucketArray_base:
  "makeBucketArray t b 0 h = (Inr (bk, nx), h') \<Longrightarrow> bk = brk h"
  by (auto simp: makeBucketArray_def Let_def newarray_def split: sum.splits prod.splits if_splits)

text \<open>
  Claim C10. For a type descriptor with a bucket size other than zero and a header that is
  \<^verbatim>\<open>nil\<close> or holds no entry, \<^verbatim>\<open>makemap\<close> and \<^verbatim>\<open>makemap64\<close> return normally for every size
  hint, and return the same header. \<^verbatim>\<open>makemap\<close> goes on with the hint 0 when the hint times
  the bucket size does not fit a \<^verbatim>\<open>uintptr\<close> or exceeds \<^verbatim>\<open>maxAlloc\<close>, and with the hint
  given otherwise. The header returned has \<open>count = 0\<close>, a fresh hash seed, and the other
  fields of the header passed in; its \<open>B\<close> is the least value at which the hint gone on with
  is not over the load factor, so \<open>B = 0\<close> for a replaced hint. With \<open>B = 0\<close> nothing is
  allocated. Otherwise \<^verbatim>\<open>buckets\<close> is a new block at the allocation frontier, of a size that
  \<^verbatim>\<open>maxAlloc\<close> allows; for a well-formed descriptor and an allocator that rounds sizes up,
  the block holds the \<open>2 ^ B\<close> buckets of the table, all zero, and the pool cursor is the
  bucket after them when \<open>B \<ge> 4\<close>. \<^verbatim>\<open>makemap64\<close> replaces by 0 a hint whose value is not
  in the range of the \<^verbatim>\<open>int\<close> of the platform; on this platform, where \<^verbatim>\<open>int\<close> has 64 bits,
  every hint is in the range.
\<close>

theorem makemap_never_fails:
  fixes t :: "('k, 'v) maptype" and hopt :: "('k, 'v) hmap option" and s :: "('k, 'v) heap"
    and hint :: "64 word"
  defines "h0 \<equiv> case hopt of None \<Rightarrow> new_hmap s | Some h \<Rightarrow> h"
  defines "e \<equiv> if 2 ^ 64 \<le> unat hint * unat (bucket_size t) \<or>
                   unat (maxAlloc h0) < unat hint * unat (bucket_size t) then 0 else hint"
  assumes sz: "bucket_size t \<noteq> 0"
    and em: "hopt = None \<or> (\<exists>h. hopt = Some h \<and> count h = 0)"
  shows "(\<exists>h'. makemap t hint hopt s = (Inr (), h') \<and> makemap64 t hint hopt s = (Inr (), h') \<and>
           count h' = 0 \<and> flags h' = flags h0 \<and> oldbuckets h' = oldbuckets h0 \<and>
           nevacuate h' = nevacuate h0 \<and> noverflow h' = noverflow h0 \<and>
           hash0 h' = rnd h0 (rnd_pos h0) \<and>
           \<not> overLoadFactor e (B h') \<and> (\<forall>b. b < B h' \<longrightarrow> overLoadFactor e b) \<and>
           (e = 0 \<longrightarrow> B h' = 0) \<and>
           (if B h' = 0
            then buckets h' = buckets h0 \<and> extra h' = extra h0 \<and> mem h' = mem h0 \<and>
                 brk h' = brk h0
            else buckets h' = brk h0 \<and>
                 unat (bucket_size t) *
                   (2 ^ unat (B h') + (if 4 \<le> B h' then 2 ^ (unat (B h') - 4) else 0))
                   \<le> unat (maxAlloc h0) \<and>
                 (valid_type t \<and> (\<forall>x. x \<le> maxAlloc h0 \<longrightarrow> x \<le> roundupsize h0 x) \<longrightarrow>
                    brk h0 + 2 ^ unat (B h') * stride t \<le> brk h' \<and>
                    (\<forall>j < 2 ^ unat (B h'). mem h' (brk h0 + j * stride t) = zero_bmap t) \<and>
                    next_pool h' =
                      (if 4 \<le> B h' then brk h0 + 2 ^ unat (B h') * stride t else next_pool h0)))) \<and>
         (LENGTH('i::len) \<le> 64 \<longrightarrow>
            makemap64_hint TYPE('i) hint =
              (if - (2 ^ (LENGTH('i) - 1)) \<le> sint hint \<and> sint hint < 2 ^ (LENGTH('i) - 1)
               then hint else 0))"
proof (intro conjI impI)
  assume "LENGTH('i) \<le> 64"
  then show "makemap64_hint TYPE('i) hint =
      (if - (2 ^ (LENGTH('i) - 1)) \<le> sint hint \<and> sint hint < 2 ^ (LENGTH('i) - 1)
       then hint else 0)"
    by (rule makemap64_hint_fits)
next
  let ?b = "makemap_B e 0"
  let ?h1 = "(snd (fastrand h0))\<lparr>hash0 := fst (fastrand h0), B := ?b\<rparr>"
  have eh: "makemap_hint t hint (maxAlloc h0) = e" by (simp add: makemap_hint_clamp e_def)
  have c0: "count h0 = 0"
    using em by (auto simp: h0_def new_hmap_def heap.extend_def hmap.fields_def)
  have f1: "count ?h1 = 0" "B ?h1 = ?b" "flags ?h1 = flags h0" "oldbuckets ?h1 = oldbuckets h0"
    "nevacuate ?h1 = nevacuate h0" "noverflow ?h1 = noverflow h0"
    "hash0 ?h1 = rnd h0 (rnd_pos h0)" "buckets ?h1 = buckets h0" "extra ?h1 = extra h0"
    "mem ?h1 = mem h0" "brk ?h1 = brk h0" "roundupsize ?h1 = roundupsize h0"
    "next_pool ?h1 = next_pool h0"
    using c0 by (simp_all add: fastrand_def next_pool_def)
  from makemap_B_spec [of 0 e]
  have sp: "unat ?b \<le> 61" "\<not> overLoadFactor e ?b" "\<forall>c. c < ?b \<longrightarrow> overLoadFactor e c"
    by simp_all
  have z: "e = 0 \<longrightarrow> ?b = 0"
    by (simp add: makemap_B.simps [of 0 0] overLoadFactor_def bucketCnt_def bucketCntBits_def
        word_sless_alt)
  have m64: "makemap64 t hint hopt s = makemap t hint hopt s"
    by (simp add: makemap64_def makemap64_hint_def)
  have mm: "makemap t hint hopt s =
      (if ?b \<noteq> 0 then
         (case makeBucketArray t ?b 0 ?h1 of
            (Inl e, h) \<Rightarrow> (Inl e, h)
          | (Inr (bkts, nextOvf), h) \<Rightarrow>
              (let h = h\<lparr>buckets := bkts\<rparr>
               in if nextOvf \<noteq> 0
                  then (Inr (), h\<lparr>extra := Some (new_mapextra\<lparr>nextOverflow := nextOvf\<rparr>)\<rparr>)
                  else (Inr (), h)))
       else (Inr (), ?h1))"
    unfolding makemap_def h0_def [symmetric] eh Let_def by (simp add: split_beta)
  show "\<exists>h'. makemap t hint hopt s = (Inr (), h') \<and> makemap64 t hint hopt s = (Inr (), h') \<and>
           count h' = 0 \<and> flags h' = flags h0 \<and> oldbuckets h' = oldbuckets h0 \<and>
           nevacuate h' = nevacuate h0 \<and> noverflow h' = noverflow h0 \<and>
           hash0 h' = rnd h0 (rnd_pos h0) \<and>
           \<not> overLoadFactor e (B h') \<and> (\<forall>b. b < B h' \<longrightarrow> overLoadFactor e b) \<and>
           (e = 0 \<longrightarrow> B h' = 0) \<and>
           (if B h' = 0
            then buckets h' = buckets h0 \<and> extra h' = extra h0 \<and> mem h' = mem h0 \<and>
                 brk h' = brk h0
            else buckets h' = brk h0 \<and>
                 unat (bucket_size t) *
                   (2 ^ unat (B h') + (if 4 \<le> B h' then 2 ^ (unat (B h') - 4) else 0))
                   \<le> unat (maxAlloc h0) \<and>
                 (valid_type t \<and> (\<forall>x. x \<le> maxAlloc h0 \<longrightarrow> x \<le> roundupsize h0 x) \<longrightarrow>
                    brk h0 + 2 ^ unat (B h') * stride t \<le> brk h' \<and>
                    (\<forall>j < 2 ^ unat (B h'). mem h' (brk h0 + j * stride t) = zero_bmap t) \<and>
                    next_pool h' =
                      (if 4 \<le> B h' then brk h0 + 2 ^ unat (B h') * stride t else next_pool h0)))"
  proof (cases "?b = 0")
    case True
    with mm m64 f1 sp z show ?thesis by (intro exI [of _ ?h1]) simp
  next
    case False
    text \<open>The request is within \<^verbatim>\<open>maxAlloc\<close>.\<close>
    from False have "unat ?b \<noteq> 0" by (simp add: unat_eq_0)
    then have one: "1 \<le> ?b" by (simp add: word_le_nat_alt)
    from False have um: "unat (?b - 1) = unat ?b - 1" by (simp add: unat_minus_one)
    from \<open>unat ?b \<noteq> 0\<close> have pl: "?b - 1 < ?b" by (simp add: word_less_nat_alt um)
    with sp(3) have ov: "overLoadFactor e (?b - 1)" by blast
    from um sp(1) \<open>unat ?b \<noteq> 0\<close> have le60: "unat (?b - 1) \<le> 60" by simp
    from um \<open>unat ?b \<noteq> 0\<close> have up: "unat (?b - 1) + 1 = unat ?b" by simp
    have b4: "(4 \<le> ?b) = (4 \<le> unat ?b)" by (simp add: word_le_nat_alt)
    let ?n = "2 ^ unat ?b + (if 4 \<le> ?b then 2 ^ (unat ?b - 4) else 0)"
    from request_le_hint [OF ov le60] have rq: "?n \<le> unat e" unfolding up b4 by simp
    have "e \<noteq> 0"
    proof
      assume "e = 0"
      with z False show False by simp
    qed
    then have "unat e * unat (bucket_size t) \<le> unat (maxAlloc h0)"
      by (auto simp: e_def split: if_splits)
    then have nb2: "unat (bucket_size t) * unat e \<le> unat (maxAlloc h0)"
      by (simp only: mult.commute)
    have "unat (bucket_size t) * ?n \<le> unat (bucket_size t) * unat e"
      using rq by (rule mult_le_mono2)
    from this nb2 have bound: "unat (bucket_size t) * ?n \<le> unat (maxAlloc h0)"
      by (rule le_trans)
    obtain bk nx h2 where mb: "makeBucketArray t ?b 0 ?h1 = (Inr (bk, nx), h2)"
      using makeBucketArray_ok [OF sz, of ?b 0 ?h1] by blast
    from makeBucketArray_base [OF mb] f1 have bk: "bk = brk h0" by simp
    from makeBucketArray_more [of t ?b 0 ?h1] mb
    have fr: "heap.more h2 = heap.more ?h1" by simp
    note f2 = more_fields [OF fr]
    let ?h3 = "h2\<lparr>buckets := bk\<rparr>"
    let ?h' = "if nx \<noteq> 0 then ?h3\<lparr>extra := Some (new_mapextra\<lparr>nextOverflow := nx\<rparr>)\<rparr> else ?h3"
    from mm mb False have r: "makemap t hint hopt s = (Inr (), ?h')" by (simp add: Let_def)
    have f3: "count ?h' = 0" "flags ?h' = flags h0" "oldbuckets ?h' = oldbuckets h0"
      "nevacuate ?h' = nevacuate h0" "noverflow ?h' = noverflow h0"
      "hash0 ?h' = rnd h0 (rnd_pos h0)" "B ?h' = ?b" "buckets ?h' = brk h0"
      "mem ?h' = mem h2" "brk ?h' = brk h2"
      "next_pool ?h' = (if nx \<noteq> 0 then nx else next_pool h0)"
      using f1 f2 bk by (simp_all add: next_pool_def)
    have g: "brk h0 + 2 ^ unat ?b * stride t \<le> brk ?h' \<and>
        (\<forall>j < 2 ^ unat ?b. mem ?h' (brk h0 + j * stride t) = zero_bmap t) \<and>
        next_pool ?h' = (if 4 \<le> ?b then brk h0 + 2 ^ unat ?b * stride t else next_pool h0)"
      if vt: "valid_type t" and ru: "\<forall>x. x \<le> maxAlloc h0 \<longrightarrow> x \<le> roundupsize h0 x"
    proof -
      note ss = stride_size [OF vt]
      from sp(1) have b64: "unat ?b < 64" by simp
      have fit: "unat (bucket_size t) * (2 ^ unat ?b + 2 ^ (unat ?b - 4)) < 2 ^ 64" if "4 \<le> ?b"
      proof -
        have "unat (maxAlloc h0) < 2 ^ 64" using unsigned_less [of "maxAlloc h0"] by simp
        with bound that show ?thesis by simp
      qed
      have rs: "bucket_size t * (bucketShift ?b + bucketShift (?b - 4)) \<le>
          roundupsize ?h1 (bucket_size t * (bucketShift ?b + bucketShift (?b - 4)))" if b4': "4 \<le> ?b"
      proof -
        let ?base = "bucketShift ?b" and ?e = "bucketShift (?b - 4)"
        from b4' have u4: "unat (?b - 4) = unat ?b - 4" by (simp add: unat_sub)
        have ub: "unat ?base = 2 ^ unat ?b" using b64 by (rule bucketShift_unat)
        have ue: "unat ?e = 2 ^ (unat ?b - 4)" using b64 u4 by (simp add: bucketShift_unat)
        from ss have s1: "1 \<le> unat (bucket_size t)" by simp
        have "(2::nat) ^ unat ?b + 2 ^ (unat ?b - 4) \<le>
            unat (bucket_size t) * (2 ^ unat ?b + 2 ^ (unat ?b - 4))"
          using mult_le_mono1 [OF s1, of "2 ^ unat ?b + 2 ^ (unat ?b - 4)"] by simp
        from this fit [OF b4'] have "(2::nat) ^ unat ?b + 2 ^ (unat ?b - 4) < 2 ^ 64"
          by (rule le_less_trans)
        then have "unat ?base + unat ?e < 2 ^ LENGTH(64)" by (simp add: ub ue)
        then have "unat (?base + ?e) = unat ?base + unat ?e" by (rule unat_add_lem [THEN iffD1])
        then have un: "unat (?base + ?e) = 2 ^ unat ?b + 2 ^ (unat ?b - 4)" by (simp add: ub ue)
        from fit [OF b4'] have "unat (bucket_size t) * unat (?base + ?e) < 2 ^ LENGTH(64)"
          by (simp add: un)
        then have "unat (bucket_size t * (?base + ?e)) = unat (bucket_size t) * unat (?base + ?e)"
          by (rule unat_mult_lem [THEN iffD1])
        with bound b4' have "bucket_size t * (?base + ?e) \<le> maxAlloc h0"
          by (simp add: word_le_nat_alt un)
        with ru f1(12) show ?thesis by simp
      qed
      obtain nb where nbv: "makeBucketArray_nbuckets t ?b ?h1 = Inr nb"
        using makeBucketArray_nbuckets_ok [OF sz, of ?b ?h1] by blast
      note fa = makeBucketArray_fresh [OF vt b64 fit rs nbv mb]
      from fa(1) have nx: "nx = (if 4 \<le> ?b then brk ?h1 + 2 ^ unat ?b * stride t else 0)" by simp
      note ge = fa(2) and bk2 = fa(4) and m2 = fa(9)
      from ge have le: "2 ^ unat ?b \<le> unat nb" by (auto split: if_splits)
      then have "2 ^ unat ?b * stride t \<le> unat nb * stride t" by (rule mult_le_mono1)
      with bk2 f1 f3 have 1: "brk h0 + 2 ^ unat ?b * stride t \<le> brk ?h'" by simp
      have 2: "mem ?h' (brk h0 + j * stride t) = zero_bmap t" if j: "j < 2 ^ unat ?b" for j
      proof -
        from j le have jn: "j < unat nb" by simp
        with ss(1) have "j * stride t < unat nb * stride t" by simp
        moreover have "j * stride t \<noteq> (unat nb - 1) * stride t" if "4 \<le> ?b"
        proof -
          have p1: "(0::nat) < 2 ^ (unat ?b - 4)" by simp
          from ge that have g2: "2 ^ unat ?b + 2 ^ (unat ?b - 4) \<le> unat nb" by simp
          from g2 p1 j have "j < unat nb - 1" by linarith
          with ss(1) show ?thesis by simp
        qed
        ultimately show ?thesis using m2 f1 f3 by auto
      qed
      have "(0::nat) < 2 ^ unat ?b * stride t" using ss(1) by simp
      with nx f1 f3 have 3: "next_pool ?h' =
          (if 4 \<le> ?b then brk h0 + 2 ^ unat ?b * stride t else next_pool h0)" by simp
      from 1 2 3 show ?thesis by blast
    qed
    from r m64 f3 sp z False bound bk g show ?thesis
      by (intro exI [of _ ?h']) (simp only: simp_thms if_False, blast)
  qed
qed

lemma uint8_le_4: "(x :: uint8) \<le> 4 \<Longrightarrow> x = 0 \<or> x = 1 \<or> x = 2 \<or> x = 3 \<or> x = 4"
proof -
  assume "x \<le> 4"
  then have "unat x \<le> 4" by (simp add: word_le_nat_alt)
  then have "unat x = 0 \<or> unat x = 1 \<or> unat x = 2 \<or> unat x = 3 \<or> unat x = 4" by linarith
  then show ?thesis by (simp add: word_unat_eq_iff)
qed

text \<open>
  Two hints for the integer keys, with no header given. Sixteen times \<open>2 ^ 58\<close> entries of
  144 bytes do not fit a \<^verbatim>\<open>uintptr\<close>: the table is created for the hint 0, with \<open>B = 0\<close> and
  no bucket. A hint of 100 gives \<open>B = 4\<close> and a block of zeroed buckets at 4096, the pool
  cursor after the sixteenth. The hint \<open>2 ^ 31\<close> does not fit an \<^verbatim>\<open>int\<close> of 32 bits, and fits
  one of 64 bits.
\<close>

theorem makemap_never_fails_witness:
  "bucket_size ex_type \<noteq> 0 \<and>
   (\<exists>h'. makemap ex_type (2 ^ 62) None ex_heap = (Inr (), h') \<and>
      makemap64 ex_type (2 ^ 62) None ex_heap = (Inr (), h') \<and>
      count h' = 0 \<and> B h' = 0 \<and> buckets h' = 0 \<and> brk h' = 4096) \<and>
   (\<exists>h'. makemap ex_type 100 None ex_heap = (Inr (), h') \<and>
      makemap64 ex_type 100 None ex_heap = (Inr (), h') \<and>
      count h' = 0 \<and> B h' = 4 \<and> buckets h' = 4096 \<and> 4096 + 16 * 144 \<le> brk h' \<and>
      mem h' (4096 + 15 * 144) = zero_bmap ex_type \<and> next_pool h' = 6400) \<and>
   makemap64_hint TYPE(32) (2 ^ 31) = 0 \<and> makemap64_hint TYPE(64) (2 ^ 31) = 2 ^ 31"
proof -
  have a: "bucket_size ex_type \<noteq> 0" by (simp add: ex_defs)
  have n: "(None :: (nat, nat) hmap option) = None \<or> (\<exists>h. None = Some h \<and> count h = 0)" by simp
  have c: "unat (bucket_size ex_type) = 144" "maxAlloc (new_hmap ex_heap) = 2 ^ 48"
    "buckets (new_hmap ex_heap) = 0" "brk (new_hmap ex_heap) = 4096" "stride ex_type = 144"
    "valid_type ex_type" "roundupsize (new_hmap ex_heap) = (\<lambda>x. x)"
    by (simp_all add: ex_defs stride_def valid_type_def)
  note big = makemap_never_fails [OF a n, of "2 ^ 62" ex_heap, where 'i = 32, THEN conjunct1]
  have 1: "\<exists>h'. makemap ex_type (2 ^ 62) None ex_heap = (Inr (), h') \<and>
      makemap64 ex_type (2 ^ 62) None ex_heap = (Inr (), h') \<and>
      count h' = 0 \<and> B h' = 0 \<and> buckets h' = 0 \<and> brk h' = 4096"
    using big by (auto simp: c)
  note hun = makemap_never_fails [OF a n, of 100 ex_heap, where 'i = 32, THEN conjunct1]
  have o: "overLoadFactor 100 0" "overLoadFactor 100 1" "overLoadFactor 100 2"
    "overLoadFactor 100 3" "\<not> overLoadFactor 100 4"
    by (simp_all add: overLoadFactor_def bucketShift_def const_defs word_sless_alt)
  define h' where "h' = snd (makemap ex_type 100 None ex_heap)"
  have r: "makemap ex_type 100 None ex_heap = (Inr (), h')" using hun by (auto simp: h'_def)
  have h': "makemap64 ex_type 100 None ex_heap = (Inr (), h')" "count h' = 0"
    "\<not> overLoadFactor 100 (B h')" "\<forall>b. b < B h' \<longrightarrow> overLoadFactor 100 b"
    using hun r by (auto simp: c)
  from h'(4) o(5) have "\<not> 4 < B h'" by blast
  then have "B h' \<le> 4" by simp
  from uint8_le_4 [OF this] h'(3) o have B4: "B h' = 4" by auto
  have z: "\<forall>j < 16. mem h' (4096 + j * 144) = zero_bmap ex_type"
    using hun r B4 by (auto simp: c)
  have 2: "buckets h' = 4096" "4096 + 16 * 144 \<le> brk h'"
    "mem h' (4096 + 15 * 144) = zero_bmap ex_type" "next_pool h' = 6400"
    using hun r B4 z [rule_format, of 15] by (auto simp: c)
  have 3: "makemap64_hint TYPE(32) (2 ^ 31) = 0" "makemap64_hint TYPE(64) (2 ^ 31) = 2 ^ 31"
    using makemap_never_fails [OF a n, of "2 ^ 31" ex_heap, where 'i = 32, THEN conjunct2]
      makemap_never_fails [OF a n, of "2 ^ 31" ex_heap, where 'i = 64, THEN conjunct2]
    by simp_all
  from a 1 r h'(1,2) B4 2 3 show ?thesis by blast
qed

section \<open>The pool of overflow buckets\<close>

text \<open>
  Claim C9, as amended. A fresh array for \<open>b \<ge> 4\<close> whose size in bytes fits a
  \<^verbatim>\<open>uintptr\<close>, under an allocator whose \<^verbatim>\<open>roundupsize\<close> does not return less than it is
  asked for: \<^verbatim>\<open>makeBucketArray\<close> allocates \<open>nb\<close> buckets in one block at the allocation
  frontier, where \<open>nb\<close> is \<open>2 ^ b + 2 ^ (b - 4)\<close> when that many buckets fill a size class
  of the allocator exactly, and otherwise the number of buckets that fit the size class
  \<^verbatim>\<open>roundupsize\<close> gives; in both cases at least \<open>2 ^ b + 2 ^ (b - 4)\<close>. It returns the
  block and, as the pool cursor, the bucket after the \<open>2 ^ b\<close> main ones, and writes the
  address of the block, which is not \<^verbatim>\<open>nil\<close>, into the overflow pointer of the last
  bucket: the end-of-pool mark, the only bucket of the block that is not zero. With a cursor
  that is not \<^verbatim>\<open>nil\<close>, \<^verbatim>\<open>newoverflow\<close> hands out the bucket at the cursor without
  allocating, links it and leaves it with a \<^verbatim>\<open>nil\<close> overflow pointer; the cursor moves on by
  one bucket when that bucket's overflow pointer was \<^verbatim>\<open>nil\<close>, and becomes \<^verbatim>\<open>nil\<close> when it
  was the mark. Without a cursor \<^verbatim>\<open>newoverflow\<close> allocates one bucket at the frontier.
\<close>

theorem overflow_pool:
  assumes b4: "4 \<le> b" and b64: "unat b < 64" and sz: "bucket_size t \<noteq> 0"
    and fit: "unat (bucket_size t) * (2 ^ unat b + 2 ^ (unat b - 4)) < 2 ^ 64"
    and ru: "bucket_size t * (bucketShift b + bucketShift (b - 4)) \<le>
             roundupsize h (bucket_size t * (bucketShift b + bucketShift (b - 4)))"
    and fr: "brk h \<noteq> 0"
  shows "(\<exists>nb h'. makeBucketArray_nbuckets t b h = Inr nb \<and>
           nb = (if roundupsize h (bucket_size t * (bucketShift b + bucketShift (b - 4))) =
                    bucket_size t * (bucketShift b + bucketShift (b - 4))
                 then bucketShift b + bucketShift (b - 4)
                 else roundupsize h (bucket_size t * (bucketShift b + bucketShift (b - 4)))
                        div bucket_size t) \<and>
           2 ^ unat b + 2 ^ (unat b - 4) \<le> unat nb \<and>
           makeBucketArray t b 0 h = (Inr (brk h, brk h + 2 ^ unat b * stride t), h') \<and>
           brk h' = brk h + unat nb * unat (bucket_size t) \<and>
           overflow h' (brk h + (unat nb - 1) * stride t) = brk h \<and>
           overflow h' (brk h + (unat nb - 1) * stride t) \<noteq> 0 \<and>
           (\<forall>a. brk h \<le> a \<and> a < brk h + unat nb * unat (bucket_size t) \<and>
                a \<noteq> brk h + (unat nb - 1) * stride t \<longrightarrow> mem h' a = zero_bmap t)) \<and>
         (\<forall>x p c. extra h = Some x \<and> nextOverflow x = p \<and> p \<noteq> 0 \<and> c \<noteq> p \<longrightarrow>
            fst (newoverflow t c h) = p \<and>
            brk (snd (newoverflow t c h)) = brk h \<and>
            overflow (snd (newoverflow t c h)) c = p \<and>
            overflow (snd (newoverflow t c h)) p = 0 \<and>
            Option.bind (extra (snd (newoverflow t c h))) (Some \<circ> nextOverflow) =
              Some (if overflow h p = 0 then p + stride t else 0)) \<and>
         (\<forall>c. (extra h = None \<or> (\<exists>x. extra h = Some x \<and> nextOverflow x = 0)) \<longrightarrow>
            fst (newoverflow t c h) = brk h \<and>
            brk (snd (newoverflow t c h)) = brk h + unat (bucket_size t) \<and>
            overflow (snd (newoverflow t c h)) c = brk h)"
proof (intro conjI allI impI)
  from pool_count [OF b4 b64 sz fit ru] obtain nb where
    nb: "makeBucketArray_nbuckets t b h = Inr nb"
    and f: "nb = (if roundupsize h (bucket_size t * (bucketShift b + bucketShift (b - 4))) =
                    bucket_size t * (bucketShift b + bucketShift (b - 4))
                 then bucketShift b + bucketShift (b - 4)
                 else roundupsize h (bucket_size t * (bucketShift b + bucketShift (b - 4)))
                        div bucket_size t)"
    and ub: "unat (bucketShift b) = 2 ^ unat b"
    and ge: "2 ^ unat b + 2 ^ (unat b - 4) \<le> unat nb" by blast
  from ge ub have "unat (bucketShift b) < unat nb"
    by (simp add: less_le_trans [of "2 ^ unat b" "2 ^ unat b + 2 ^ (unat b - 4)"])
  then have ne: "nb \<noteq> bucketShift b" by auto
  have "(0::nat) < 2 ^ unat b" by simp
  with ge have "0 < unat nb" by linarith
  then have "nb \<noteq> 0" by (simp add: unat_gt_0)
  then have u1: "unat (nb - 1) = unat nb - 1" by (simp add: unat_minus_one)
  let ?last = "brk h + (unat nb - 1) * stride t"
  let ?h' = "setoverflow ?last (brk h) (snd (newarray t (unat nb) h))"
  have 1: "makeBucketArray t b 0 h = (Inr (brk h, brk h + 2 ^ unat b * stride t), ?h')"
    using nb ne by (auto simp: makeBucketArray_def Let_def newarray_def u1 ub split: prod.splits)
  have 2: "brk ?h' = brk h + unat nb * unat (bucket_size t)"
    by (simp add: setoverflow_def newarray_def memclr_def Let_def)
  have 3: "overflow ?h' ?last = brk h"
    by (simp add: setoverflow_def overflow_def)
  have 4: "\<forall>a. brk h \<le> a \<and> a < brk h + unat nb * unat (bucket_size t) \<and>
                    a \<noteq> ?last \<longrightarrow> mem ?h' a = zero_bmap t"
    by (simp add: setoverflow_def newarray_def memclr_def Let_def)
  from nb f ge 1 2 3 4 fr
  show "\<exists>nb h'. makeBucketArray_nbuckets t b h = Inr nb \<and>
           nb = (if roundupsize h (bucket_size t * (bucketShift b + bucketShift (b - 4))) =
                    bucket_size t * (bucketShift b + bucketShift (b - 4))
                 then bucketShift b + bucketShift (b - 4)
                 else roundupsize h (bucket_size t * (bucketShift b + bucketShift (b - 4)))
                        div bucket_size t) \<and>
           2 ^ unat b + 2 ^ (unat b - 4) \<le> unat nb \<and>
           makeBucketArray t b 0 h = (Inr (brk h, brk h + 2 ^ unat b * stride t), h') \<and>
           brk h' = brk h + unat nb * unat (bucket_size t) \<and>
           overflow h' (brk h + (unat nb - 1) * stride t) = brk h \<and>
           overflow h' (brk h + (unat nb - 1) * stride t) \<noteq> 0 \<and>
           (\<forall>a. brk h \<le> a \<and> a < brk h + unat nb * unat (bucket_size t) \<and>
                a \<noteq> brk h + (unat nb - 1) * stride t \<longrightarrow> mem h' a = zero_bmap t)"
    by (intro exI [of _ nb] exI [of _ ?h']) (simp only: simp_thms)
next
  fix x p c
  assume a: "extra h = Some x \<and> nextOverflow x = p \<and> p \<noteq> 0 \<and> c \<noteq> p"
  then show "fst (newoverflow t c h) = p"
    by (simp add: newoverflow_def Let_def split: prod.splits)
  from a show "brk (snd (newoverflow t c h)) = brk h"
    by (simp add: newoverflow_def Let_def incrnoverflow_fields createOverflow_def setoverflow_def
        split: prod.splits)
  from a show "overflow (snd (newoverflow t c h)) c = p"
    by (simp add: newoverflow_def Let_def overflow_def setoverflow_def split: prod.splits)
  from a show "overflow (snd (newoverflow t c h)) p = 0"
    by (simp add: newoverflow_def Let_def overflow_def incrnoverflow_fields createOverflow_def
        setoverflow_def split: prod.splits)
  from a show "Option.bind (extra (snd (newoverflow t c h))) (Some \<circ> nextOverflow) =
              Some (if overflow h p = 0 then p + stride t else 0)"
    by (simp add: newoverflow_def Let_def overflow_def incrnoverflow_fields createOverflow_def
        setoverflow_def split: prod.splits option.splits)
next
  fix c
  assume a: "extra h = None \<or> (\<exists>x. extra h = Some x \<and> nextOverflow x = 0)"
  then show "fst (newoverflow t c h) = brk h"
    by (auto simp: newoverflow_def Let_def newobject_def split: prod.splits)
  from a show "brk (snd (newoverflow t c h)) = brk h + unat (bucket_size t)"
    by (auto simp: newoverflow_def Let_def newobject_def incrnoverflow_fields createOverflow_def
        setoverflow_def split: prod.splits)
  from a show "overflow (snd (newoverflow t c h)) c = brk h"
    by (auto simp: newoverflow_def Let_def newobject_def overflow_def setoverflow_def
        split: prod.splits)
qed

text \<open>
  The header \<open>ex_pool\<close>: an array for \<open>b = 4\<close> has 17 buckets under an allocator with
  exact size classes, and the pool cursor 6400 is bumped by the bucket size.
\<close>

theorem overflow_pool_witness:
  "(4::uint8) \<le> 4 \<and> bucket_size ex_type \<noteq> 0 \<and> brk ex_pool \<noteq> 0 \<and>
   makeBucketArray_nbuckets ex_type 4 ex_pool = Inr 17 \<and>
   (\<exists>h'. makeBucketArray ex_type 4 0 ex_pool = (Inr (4096, 4096 + 16 * 144), h') \<and>
      brk h' = 4096 + 17 * 144 \<and>
      overflow h' (4096 + 16 * 144) = 4096 \<and> mem h' (4096 + 15 * 144) = zero_bmap ex_type) \<and>
   fst (newoverflow ex_type 4096 ex_pool) = 6400 \<and>
   Option.bind (extra (snd (newoverflow ex_type 4096 ex_pool))) (Some \<circ> nextOverflow) =
     Some (6400 + 144)"
proof -
  have a: "makeBucketArray_nbuckets ex_type 4 ex_pool = Inr 17"
    by (simp add: makeBucketArray_nbuckets_def bucketShift_def ex_pool_def ex_defs Let_def)
  have c: "brk ex_pool = 4096" "stride ex_type = 144" "unat (bucket_size ex_type) = 144"
    "extra ex_pool = Some (new_mapextra\<lparr>nextOverflow := 6400\<rparr>)"
    "overflow ex_pool 6400 = 0" "bucket_size ex_type \<noteq> 0"
    by (simp_all add: stride_def overflow_def ex_pool_def ex_defs)
  have h: "(4::uint8) \<le> 4" "unat (4::uint8) < 64"
    "unat (bucket_size ex_type) * (2 ^ unat (4::uint8) + 2 ^ (unat (4::uint8) - 4)) < 2 ^ 64"
    "bucket_size ex_type * (bucketShift 4 + bucketShift (4 - 4)) \<le>
       roundupsize ex_pool (bucket_size ex_type * (bucketShift 4 + bucketShift (4 - 4)))"
    "brk ex_pool \<noteq> 0"
    by (simp_all add: c ex_pool_def ex_defs)
  note p = overflow_pool [OF h(1) h(2) c(6) h(3) h(4) h(5)]
  from p [THEN conjunct1] a c
  have 1: "\<exists>h'. makeBucketArray ex_type 4 0 ex_pool = (Inr (4096, 4096 + 16 * 144), h') \<and>
      brk h' = 4096 + 17 * 144 \<and>
      overflow h' (4096 + 16 * 144) = 4096 \<and> mem h' (4096 + 15 * 144) = zero_bmap ex_type"
    by auto
  from p [THEN conjunct2, THEN conjunct1,
      THEN spec, THEN spec, THEN spec, of "new_mapextra\<lparr>nextOverflow := 6400\<rparr>" 6400 4096] c
  have 2: "fst (newoverflow ex_type 4096 ex_pool) = 6400 \<and>
   Option.bind (extra (snd (newoverflow ex_type 4096 ex_pool))) (Some \<circ> nextOverflow) =
     Some (6400 + 144)"
    by simp
  from a c h 1 2 show ?thesis by blast
qed

text \<open>
  Under an allocator that rounds large sizes up to whole pages, an array for \<open>b = 8\<close>
  with buckets of 144 bytes has 284 buckets: the pool holds 28 buckets, not
  \<open>2 ^ (8 - 4) = 16\<close>, the sixteenth of them has a \<^verbatim>\<open>nil\<close> overflow pointer, and the mark
  is on the twenty-eighth.
\<close>

theorem overflow_pool_counterexample:
  "fst (makeBucketArray ex_type 8 0 (new_hmap page_heap)) = Inr (4096, 4096 + 256 * 144) \<and>
   brk (snd (makeBucketArray ex_type 8 0 (new_hmap page_heap))) = 4096 + 284 * 144 \<and>
   overflow (snd (makeBucketArray ex_type 8 0 (new_hmap page_heap))) (4096 + 271 * 144) = 0 \<and>
   overflow (snd (makeBucketArray ex_type 8 0 (new_hmap page_heap))) (4096 + 283 * 144) = 4096 \<and>
   (2::nat) ^ (8 - 4) = 16"
proof -
  have n: "makeBucketArray_nbuckets ex_type 8 (new_hmap page_heap) = Inr 284"
    by (simp add: makeBucketArray_nbuckets_def bucketShift_def page_heap_def ex_defs Let_def)
  show ?thesis
    unfolding makeBucketArray_def n
    by (simp add: bucketShift_def newarray_def memclr_def setoverflow_def
        overflow_def stride_def Let_def page_heap_def ex_defs)
qed
section \<open>Chains\<close>

lemma bucketCnt_8: "bucketCnt = 8"
  by (simp add: bucketCnt_def bucketCntBits_def)

lemma is_chain_unique: "is_chain h b as \<Longrightarrow> is_chain h b bs \<Longrightarrow> as = bs"
proof (induction as arbitrary: b bs)
  case Nil
  then show ?case by (cases bs) auto
next
  case (Cons a as)
  then show ?case by (cases bs) auto
qed

lemma is_chain_suffix: "is_chain h b (as @ c # cs) \<Longrightarrow> is_chain h c (c # cs)"
  by (induction as arbitrary: b) auto

lemma is_chain_nonzero: "is_chain h b as \<Longrightarrow> 0 \<notin> set as"
  by (induction as arbitrary: b) auto

lemma is_chain_nth_nonzero: "is_chain h b as \<Longrightarrow> n < length as \<Longrightarrow> as ! n \<noteq> 0"
  by (metis is_chain_nonzero nth_mem)

lemma is_chain_head_fresh:
  assumes "is_chain h (overflow h a) as"
  shows "a \<notin> set as"
proof
  assume "a \<in> set as"
  then obtain bs cs where as: "as = bs @ a # cs" by (auto simp: in_set_conv_decomp)
  with assms have "is_chain h a (a # cs)" by (auto dest: is_chain_suffix)
  then have "is_chain h (overflow h a) cs" by simp
  with assms have "as = cs" by (rule is_chain_unique)
  with as show False by simp
qed

lemma is_chain_distinct: "is_chain h b as \<Longrightarrow> distinct as"
  by (induction as arbitrary: b) (auto dest: is_chain_head_fresh)

lemma is_chain_nth:
  "is_chain h b as \<Longrightarrow> Suc n < length as \<Longrightarrow> overflow h (as ! n) = as ! Suc n"
proof (induction as arbitrary: b n)
  case Nil
  then show ?case by simp
next
  case (Cons a as)
  show ?case
  proof (cases n)
    case 0
    with Cons.prems show ?thesis by (cases as) auto
  next
    case (Suc m)
    with Cons.prems Cons.IH [of "overflow h b" m] show ?thesis by simp
  qed
qed

lemma is_chain_last: "is_chain h b as \<Longrightarrow> as \<noteq> [] \<Longrightarrow> overflow h (last as) = 0"
  by (induction as arbitrary: b) (auto split: if_splits)

lemma is_chain_hd: "is_chain h b as \<Longrightarrow> as \<noteq> [] \<Longrightarrow> hd as = b"
  by (cases as) auto

lemma is_chain_cong:
  "(\<And>a. a \<in> set as \<Longrightarrow> overflow h' a = overflow h a) \<Longrightarrow> is_chain h' b as = is_chain h b as"
  by (induction as arbitrary: b) auto

subsection \<open>Reading and writing the tophash bytes of a chain\<close>

lemma cell_index_bound: "n < l \<Longrightarrow> i < c \<Longrightarrow> c * n + i < c * (l :: nat)"
proof -
  assume a: "n < l" "i < c"
  then have "c * n + i < c * Suc n" by simp
  also from a have "c * Suc n \<le> c * l" by (intro mult_le_mono2) simp
  finally show ?thesis .
qed

lemma length_cells [simp]: "length (cells h a) = bucketCnt"
  by (simp add: cells_def)

lemma nth_cells [simp]: "i < bucketCnt \<Longrightarrow> cells h a ! i = topbits (mem h a) i"
  by (simp add: cells_def)

lemma length_chain_tophash [simp]: "length (chain_tophash h as) = bucketCnt * length as"
  by (induction as) (simp_all add: chain_tophash_def)

lemma chain_tophash_Cons: "chain_tophash h (a # as) = cells h a @ chain_tophash h as"
  by (simp add: chain_tophash_def)

lemma chain_tophash_Nil [simp]: "chain_tophash h [] = []"
  by (simp add: chain_tophash_def)

lemma nth_chain_tophash:
  "n < length as \<Longrightarrow> i < bucketCnt \<Longrightarrow>
     chain_tophash h as ! (bucketCnt * n + i) = topbits (mem h (as ! n)) i"
proof (induction as arbitrary: n)
  case Nil
  then show ?case by simp
next
  case (Cons a as)
  show ?case
  proof (cases n)
    case 0
    with Cons.prems show ?thesis by (simp add: chain_tophash_Cons nth_append)
  next
    case (Suc m)
    with Cons.prems have "chain_tophash h as ! (bucketCnt * m + i) = topbits (mem h (as ! m)) i"
      by (intro Cons.IH) simp_all
    with Suc show ?thesis by (simp add: chain_tophash_Cons nth_append add.assoc)
  qed
qed

lemma cells_cong: "topbits (mem h' a) = topbits (mem h a) \<Longrightarrow> cells h' a = cells h a"
  by (simp add: cells_def)

lemma chain_tophash_cong:
  "(\<And>a. a \<in> set as \<Longrightarrow> topbits (mem h' a) = topbits (mem h a)) \<Longrightarrow>
     chain_tophash h' as = chain_tophash h as"
proof (induction as)
  case Nil
  show ?case by simp
next
  case (Cons a as)
  have "cells h' a = cells h a" by (rule cells_cong) (simp add: Cons.prems)
  moreover have "chain_tophash h' as = chain_tophash h as" by (rule Cons.IH) (simp add: Cons.prems)
  ultimately show ?case by (simp add: chain_tophash_Cons)
qed

lemma cells_set_tophash:
  "i < bucketCnt \<Longrightarrow> cells (set_tophash a i x h) a = (cells h a)[i := x]"
  by (rule nth_equalityI) (auto simp: set_tophash_def nth_list_update)

lemma chain_tophash_set_tophash:
  "distinct as \<Longrightarrow> n < length as \<Longrightarrow> i < bucketCnt \<Longrightarrow>
     chain_tophash (set_tophash (as ! n) i x h) as = (chain_tophash h as)[bucketCnt * n + i := x]"
proof (induction as arbitrary: n)
  case Nil
  then show ?case by simp
next
  case (Cons a as)
  show ?case
  proof (cases n)
    case 0
    from Cons.prems have "chain_tophash (set_tophash a i x h) as = chain_tophash h as"
      by (intro chain_tophash_cong) (auto simp: set_tophash_def)
    with 0 Cons.prems show ?thesis
      by (simp add: chain_tophash_Cons cells_set_tophash list_update_append)
  next
    case (Suc m)
    from Cons.prems Suc have ne: "as ! m \<noteq> a" by auto
    then have "cells (set_tophash (as ! m) i x h) a = cells h a"
      by (intro cells_cong) (simp add: set_tophash_def)
    moreover from Cons.prems Suc
    have "chain_tophash (set_tophash (as ! m) i x h) as = (chain_tophash h as)[bucketCnt * m + i := x]"
      by (intro Cons.IH) simp_all
    ultimately show ?thesis using Suc
      by (simp add: chain_tophash_Cons list_update_append add.assoc)
  qed
qed

lemma overflow_set_tophash [simp]: "overflow (set_tophash b i x h) a = overflow h a"
  by (simp add: overflow_def set_tophash_def)

lemma is_chain_set_tophash [simp]: "is_chain (set_tophash b i x h) c as = is_chain h c as"
  by (rule is_chain_cong) simp
section \<open>Deleting from a chain\<close>

subsection \<open>The tophash bytes\<close>

lemma short_circuit_iff:
  "short_circuit xs =
     (\<forall>i j. i < j \<and> j < length xs \<and> xs ! i = emptyRest \<longrightarrow> isEmpty (xs ! j))"
proof (induction xs)
  case Nil
  show ?case by simp
next
  case (Cons x xs)
  show ?case
  proof
    assume l: "short_circuit (x # xs)"
    show "\<forall>i j. i < j \<and> j < length (x # xs) \<and> (x # xs) ! i = emptyRest \<longrightarrow> isEmpty ((x # xs) ! j)"
    proof (intro allI impI)
      fix i j
      assume a: "i < j \<and> j < length (x # xs) \<and> (x # xs) ! i = emptyRest"
      then obtain j' where j: "j = Suc j'" by (cases j) auto
      show "isEmpty ((x # xs) ! j)"
      proof (cases i)
        case 0
        with a l j show ?thesis by (simp add: list_all_length)
      next
        case (Suc i')
        with a l j Cons.IH show ?thesis by auto
      qed
    qed
  next
    assume r: "\<forall>i j. i < j \<and> j < length (x # xs) \<and> (x # xs) ! i = emptyRest \<longrightarrow> isEmpty ((x # xs) ! j)"
    have "list_all isEmpty xs" if "x = emptyRest"
      unfolding list_all_length
    proof (intro allI impI)
      fix n assume "n < length xs"
      with r [rule_format, of 0 "Suc n"] that show "isEmpty (xs ! n)" by simp
    qed
    moreover have "short_circuit xs"
      unfolding Cons.IH
    proof (intro allI impI)
      fix i j assume "i < j \<and> j < length xs \<and> xs ! i = emptyRest"
      with r [rule_format, of "Suc i" "Suc j"] show "isEmpty (xs ! j)" by simp
    qed
    ultimately show "short_circuit (x # xs)" by simp
  qed
qed

lemma rest_maximal_iff:
  "rest_maximal xs =
     (\<forall>q. q < length xs \<and> list_all isEmpty (drop q xs) \<longrightarrow> xs ! q = emptyRest)"
proof (induction xs)
  case Nil
  show ?case by simp
next
  case (Cons x xs)
  show ?case
  proof
    assume l: "rest_maximal (x # xs)"
    show "\<forall>q. q < length (x # xs) \<and> list_all isEmpty (drop q (x # xs)) \<longrightarrow> (x # xs) ! q = emptyRest"
    proof (intro allI impI)
      fix q
      assume a: "q < length (x # xs) \<and> list_all isEmpty (drop q (x # xs))"
      show "(x # xs) ! q = emptyRest"
      proof (cases q)
        case 0
        with a l show ?thesis by simp
      next
        case (Suc q')
        with a l Cons.IH show ?thesis by simp
      qed
    qed
  next
    assume r: "\<forall>q. q < length (x # xs) \<and> list_all isEmpty (drop q (x # xs)) \<longrightarrow> (x # xs) ! q = emptyRest"
    from r [rule_format, of 0] have "list_all isEmpty (x # xs) \<longrightarrow> x = emptyRest" by simp
    moreover have "rest_maximal xs"
      unfolding Cons.IH
    proof (intro allI impI)
      fix q assume "q < length xs \<and> list_all isEmpty (drop q xs)"
      with r [rule_format, of "Suc q"] show "xs ! q = emptyRest" by simp
    qed
    ultimately show "rest_maximal (x # xs)" by simp
  qed
qed

lemma promote_closed:
  "p < length xs \<Longrightarrow>
     promote xs p =
       (let n = length (takeWhile (\<lambda>x. x = emptyOne) (rev (take p xs)))
        in take (p - n) xs @ replicate (n + 1) emptyRest @ drop (p + 1) xs)"
proof (induction p arbitrary: xs)
  case 0
  then show ?case by (cases xs) simp_all
next
  case (Suc p)
  from Suc.prems have p: "p < length xs" by simp
  then have rv: "rev (take (Suc p) xs) = xs ! p # rev (take p xs)"
    by (simp add: take_Suc_conv_app_nth)
  show ?case
  proof (cases "xs ! p = emptyOne")
    case False
    with rv Suc.prems show ?thesis by (simp add: upd_conv_take_nth_drop)
  next
    case True
    let ?xs = "xs[Suc p := emptyRest]"
    let ?n = "length (takeWhile (\<lambda>x. x = emptyOne) (rev (take p xs)))"
    have n: "?n \<le> p"
      using length_takeWhile_le [of "\<lambda>x. x = emptyOne" "rev (take p xs)"] p by simp
    from p have "promote ?xs p =
        take (p - ?n) ?xs @ replicate (?n + 1) emptyRest @ drop (p + 1) ?xs"
      using Suc.IH [of ?xs] by (simp add: Let_def)
    moreover have "take (p - ?n) ?xs = take (Suc p - Suc ?n) xs" by simp
    moreover have "drop (p + 1) ?xs = emptyRest # drop (Suc p + 1) xs"
      using Suc.prems Cons_nth_drop_Suc [of "Suc p" ?xs] by simp
    moreover have "replicate (?n + 1) emptyRest @ emptyRest # drop (Suc p + 1) xs =
        replicate (Suc ?n + 1) emptyRest @ drop (Suc p + 1) xs"
      by (simp add: replicate_append_same)
    ultimately show ?thesis using True rv by (simp add: Let_def)
  qed
qed

lemma emptyOne_run:
  assumes p: "p \<le> length xs"
  shows "length (takeWhile (\<lambda>x. x = emptyOne) (rev (take p xs))) \<le> p"
    and "p - length (takeWhile (\<lambda>x. x = emptyOne) (rev (take p xs))) \<le> j \<Longrightarrow> j < p \<Longrightarrow>
           xs ! j = emptyOne"
    and "length (takeWhile (\<lambda>x. x = emptyOne) (rev (take p xs))) < p \<Longrightarrow>
           xs ! (p - length (takeWhile (\<lambda>x. x = emptyOne) (rev (take p xs))) - 1) \<noteq> emptyOne"
proof -
  let ?r = "rev (take p xs)"
  let ?n = "length (takeWhile (\<lambda>x. x = emptyOne) ?r)"
  from p have len: "length ?r = p" by simp
  show n: "?n \<le> p" using length_takeWhile_le [of _ ?r] len by simp
  have r: "?r ! m = xs ! (p - 1 - m)" if "m < p" for m
    using that p by (simp add: rev_nth)
  show "xs ! j = emptyOne" if "p - ?n \<le> j" "j < p"
  proof -
    from that n have m: "p - 1 - j < ?n" by arith
    then have "takeWhile (\<lambda>x. x = emptyOne) ?r ! (p - 1 - j) \<in> set (takeWhile (\<lambda>x. x = emptyOne) ?r)"
      by (rule nth_mem)
    then have "takeWhile (\<lambda>x. x = emptyOne) ?r ! (p - 1 - j) = emptyOne"
      by (auto dest: set_takeWhileD)
    with m have "?r ! (p - 1 - j) = emptyOne" by (simp add: takeWhile_nth)
    with that r [of "p - 1 - j"] show ?thesis by simp
  qed
  show "xs ! (p - ?n - 1) \<noteq> emptyOne" if "?n < p"
  proof -
    from that len have "?r ! ?n \<noteq> emptyOne"
      using nth_length_takeWhile [of "\<lambda>x. x = emptyOne" ?r] by simp
    with that r [of ?n] show ?thesis by (simp add: diff_commute)
  qed
qed

lemma nth_sandwich:
  "k \<le> length xs \<Longrightarrow>
     (take k xs @ replicate m v @ ys) ! j =
       (if j < k then xs ! j else if j < k + m then v else ys ! (j - k - m))"
  by (auto simp: nth_append min_def)

lemma delete_tophash_last:
  assumes p: "p < length xs" and e: "list_all isEmpty (drop (p + 1) xs)"
  shows "length (delete_tophash xs p) = length xs"
    and "j < length xs \<Longrightarrow>
           delete_tophash xs p ! j =
             (if p - length (takeWhile (\<lambda>x. x = emptyOne) (rev (take p xs))) \<le> j \<and> j \<le> p
              then emptyRest else xs ! j)"
proof -
  let ?n = "length (takeWhile (\<lambda>x. x = emptyOne) (rev (take p xs)))"
  from p have n: "?n \<le> p" by (intro emptyOne_run) simp
  from e have d: "delete_tophash xs p = take (p - ?n) xs @ replicate (?n + 1) emptyRest @ drop (p + 1) xs"
    by (simp add: delete_tophash_def Let_def)
  from p n show "length (delete_tophash xs p) = length xs" unfolding d by simp
  show "delete_tophash xs p ! j = (if p - ?n \<le> j \<and> j \<le> p then emptyRest else xs ! j)"
    if "j < length xs"
  proof -
    from p have "p - ?n \<le> length xs" by simp
    then have "delete_tophash xs p ! j =
        (if j < p - ?n then xs ! j
         else if j < p - ?n + (?n + 1) then emptyRest
         else drop (p + 1) xs ! (j - (p - ?n) - (?n + 1)))"
      unfolding d by (rule nth_sandwich)
    moreover have "p + 1 + (j - (p - ?n) - (?n + 1)) = j" if "p < j"
      using that n by arith
    ultimately show ?thesis using that n p by auto
  qed
qed

lemma delete_tophash_notLast:
  assumes "\<not> list_all isEmpty (drop (p + 1) xs)"
  shows "delete_tophash xs p = xs[p := emptyOne]"
  using assms by (simp add: delete_tophash_def)

lemma isEmpty_simps [simp]: "isEmpty emptyRest" "isEmpty emptyOne"
  by (simp_all add: isEmpty_def emptyRest_def emptyOne_def)

lemma isEmpty_iff: "isEmpty x = (x = emptyRest \<or> x = emptyOne)"
  by (auto simp: isEmpty_def emptyRest_def emptyOne_def le_less)

lemma list_all_drop_iff:
  "list_all P (drop q xs) = (\<forall>j. q \<le> j \<and> j < length xs \<longrightarrow> P (xs ! j))"
proof
  assume l: "list_all P (drop q xs)"
  show "\<forall>j. q \<le> j \<and> j < length xs \<longrightarrow> P (xs ! j)"
  proof (intro allI impI)
    fix j assume "q \<le> j \<and> j < length xs"
    then have j: "q \<le> j" "j < length xs" by simp_all
    then have "j - q < length (drop q xs)" by simp
    with l have "P (drop q xs ! (j - q))" by (simp only: list_all_length)
    with j show "P (xs ! j)" by simp
  qed
next
  assume "\<forall>j. q \<le> j \<and> j < length xs \<longrightarrow> P (xs ! j)"
  then show "list_all P (drop q xs)" by (simp add: list_all_length)
qed

text \<open>The test the source makes, on the next cell only, decides whether any occupied cell follows.\<close>

lemma next_cell_decides:
  assumes sc: "short_circuit xs" and rm: "rest_maximal xs"
  shows "list_all isEmpty (drop (p + 1) xs) = (\<not> (p + 1 < length xs \<and> xs ! (p + 1) \<noteq> emptyRest))"
proof (cases "p + 1 < length xs")
  case False
  then show ?thesis by simp
next
  case True
  show ?thesis
  proof
    assume "list_all isEmpty (drop (p + 1) xs)"
    with rm True have "xs ! (p + 1) = emptyRest" by (simp only: rest_maximal_iff)
    then show "\<not> (p + 1 < length xs \<and> xs ! (p + 1) \<noteq> emptyRest)" by simp
  next
    assume "\<not> (p + 1 < length xs \<and> xs ! (p + 1) \<noteq> emptyRest)"
    with True have r: "xs ! (p + 1) = emptyRest" by simp
    show "list_all isEmpty (drop (p + 1) xs)"
      unfolding list_all_drop_iff
    proof (intro allI impI)
      fix j assume j: "p + 1 \<le> j \<and> j < length xs"
      show "isEmpty (xs ! j)"
      proof (cases "j = p + 1")
        case True
        with r show ?thesis by simp
      next
        case False
        with j have "p + 1 < j \<and> j < length xs \<and> xs ! (p + 1) = emptyRest" using r by simp
        with sc show ?thesis unfolding short_circuit_iff by blast
      qed
    qed
  qed
qed

lemma delete_tophash_short_circuit:
  assumes sc: "short_circuit xs" and p: "p < length xs"
  shows "short_circuit (delete_tophash xs p)"
proof (cases "list_all isEmpty (drop (p + 1) xs)")
  case False
  have "short_circuit (xs[p := emptyOne])"
    unfolding short_circuit_iff
  proof (intro allI impI)
    fix i j assume a: "i < j \<and> j < length (xs[p := emptyOne]) \<and> xs[p := emptyOne] ! i = emptyRest"
    then have "i \<noteq> p" using p by (auto simp: emptyOne_def emptyRest_def)
    with a have "i < j \<and> j < length xs \<and> xs ! i = emptyRest" by simp
    with sc have "isEmpty (xs ! j)" unfolding short_circuit_iff by blast
    then show "isEmpty (xs[p := emptyOne] ! j)" using a p by (cases "j = p") simp_all
  qed
  with False show ?thesis by (simp add: delete_tophash_notLast)
next
  case True
  let ?n = "length (takeWhile (\<lambda>x. x = emptyOne) (rev (take p xs)))"
  note nth = delete_tophash_last [OF p True]
  show ?thesis
    unfolding short_circuit_iff
  proof (intro allI impI)
    fix i j
    assume a: "i < j \<and> j < length (delete_tophash xs p) \<and> delete_tophash xs p ! i = emptyRest"
    then have j: "j < length xs" and i: "i < length xs" using nth(1) by simp_all
    show "isEmpty (delete_tophash xs p ! j)"
    proof (cases "p - ?n \<le> j \<and> j \<le> p")
      case True
      with j show ?thesis by (simp add: nth(2))
    next
      case out: False
      show ?thesis
      proof (cases "p < j")
        case True
        with j \<open>list_all isEmpty (drop (p + 1) xs)\<close> have "isEmpty (xs ! j)"
          unfolding list_all_drop_iff by simp
        with out j show ?thesis by (simp add: nth(2))
      next
        case False
        with out have jl: "j < p - ?n" by simp
        with a have "\<not> (p - ?n \<le> i \<and> i \<le> p)" by simp
        with a i have "xs ! i = emptyRest" by (simp add: nth(2))
        with a j sc have "isEmpty (xs ! j)" unfolding short_circuit_iff by blast
        with out j show ?thesis by (simp add: nth(2))
      qed
    qed
  qed
qed

lemma delete_tophash_rest_maximal:
  assumes sc: "short_circuit xs" and rm: "rest_maximal xs" and p: "p < length xs"
    and occ: "\<not> isEmpty (xs ! p)"
  shows "rest_maximal (delete_tophash xs p)"
proof (cases "list_all isEmpty (drop (p + 1) xs)")
  case False
  then obtain k where k: "p + 1 \<le> k" "k < length xs" "\<not> isEmpty (xs ! k)"
    unfolding list_all_drop_iff by blast
  have "rest_maximal (xs[p := emptyOne])"
    unfolding rest_maximal_iff
  proof (intro allI impI)
    fix q assume a: "q < length (xs[p := emptyOne]) \<and> list_all isEmpty (drop q (xs[p := emptyOne]))"
    from a have all: "\<And>j. q \<le> j \<Longrightarrow> j < length xs \<Longrightarrow> isEmpty (xs[p := emptyOne] ! j)"
      unfolding list_all_drop_iff by simp
    have pq: "p < q"
    proof (rule ccontr)
      assume "\<not> p < q"
      with k have "q \<le> k" by simp
      from all [OF this k(2)] k show False by simp
    qed
    with a have "list_all isEmpty (drop q xs)" by simp
    with a rm pq show "xs[p := emptyOne] ! q = emptyRest" unfolding rest_maximal_iff by simp
  qed
  with False show ?thesis by (simp add: delete_tophash_notLast)
next
  case True
  let ?n = "length (takeWhile (\<lambda>x. x = emptyOne) (rev (take p xs)))"
  note nth = delete_tophash_last [OF p True]
  from p have n: "?n \<le> p" by (intro emptyOne_run) simp
  show ?thesis
    unfolding rest_maximal_iff
  proof (intro allI impI)
    fix q
    assume a: "q < length (delete_tophash xs p) \<and> list_all isEmpty (drop q (delete_tophash xs p))"
    then have q: "q < length xs" using nth(1) by simp
    from a have e: "\<And>j. q \<le> j \<Longrightarrow> j < length xs \<Longrightarrow> isEmpty (delete_tophash xs p ! j)"
      unfolding list_all_drop_iff nth(1) by simp
    show "delete_tophash xs p ! q = emptyRest"
    proof (cases "p - ?n \<le> q \<and> q \<le> p")
      case True
      with q show ?thesis by (simp add: nth(2))
    next
      case out: False
      show ?thesis
      proof (cases "p < q")
        case True
        have "list_all isEmpty (drop q xs)"
          unfolding list_all_drop_iff
        proof (intro allI impI)
          fix j assume j: "q \<le> j \<and> j < length xs"
          with e [of j] True show "isEmpty (xs ! j)" by (simp add: nth(2))
        qed
        with rm q have "xs ! q = emptyRest" unfolding rest_maximal_iff by simp
        with out q show ?thesis by (simp add: nth(2))
      next
        case False
        with out have ql: "q < p - ?n" by simp
        then have lt: "?n < p" by simp
        let ?k = "p - ?n - 1"
        from ql p have k: "q \<le> ?k" "?k < length xs" "\<not> (p - ?n \<le> ?k \<and> ?k \<le> p)" by simp_all
        from e [of ?k] k have "isEmpty (xs ! ?k)" by (simp add: nth(2))
        moreover from p lt have "xs ! ?k \<noteq> emptyOne" by (intro emptyOne_run) simp_all
        ultimately have r: "xs ! ?k = emptyRest" by (simp add: isEmpty_iff)
        from lt have "?k < p" by simp
        with sc p r have "isEmpty (xs ! p)"
          using short_circuit_iff [THEN iffD1, rule_format, of xs ?k p] by simp
        with occ show ?thesis by simp
      qed
    qed
  qed
qed

subsection \<open>The walk back through the chain\<close>

lemma find_prev_chain:
  assumes c: "is_chain h b0 as" and n: "Suc n < length as"
  shows "k \<le> n \<Longrightarrow> find_prev h (as ! k) (as ! Suc n) = Some (Inr (as ! n))"
proof (induction "n - k" arbitrary: k)
  case 0
  then have k: "k = n" by simp
  from c n have "as ! n \<noteq> 0" by (intro is_chain_nth_nonzero) simp_all
  moreover from c n have "overflow h (as ! n) = as ! Suc n" by (rule is_chain_nth)
  ultimately show ?case unfolding k by (subst find_prev.simps) simp
next
  case (Suc d)
  then have k: "k < n" "d = n - Suc k" "Suc k \<le> n" by simp_all
  from c n k have nz: "as ! k \<noteq> 0" by (intro is_chain_nth_nonzero) simp_all
  from c n k have ov: "overflow h (as ! k) = as ! Suc k" by (intro is_chain_nth) simp_all
  from c have "distinct as" by (rule is_chain_distinct)
  with n k have ne: "as ! Suc k \<noteq> as ! Suc n" by (simp add: nth_eq_iff_index_eq)
  from Suc.hyps(1) [OF k(2) k(3)] nz ov ne show ?case
    by (subst find_prev.simps) simp
qed

lemma tophash_frame_refl: "tophash_frame S h h"
  by (simp add: tophash_frame_def)

lemma tophash_frame_trans:
  "tophash_frame S h h' \<Longrightarrow> tophash_frame S h' h'' \<Longrightarrow> tophash_frame S h h''"
  unfolding tophash_frame_def
proof (intro conjI allI impI, goal_cases)
  case 1
  then have "h'' = h'\<lparr>mem := mem h''\<rparr>" "h' = h\<lparr>mem := mem h'\<rparr>" by simp_all
  then have "h'' = h\<lparr>mem := mem h'\<rparr>\<lparr>mem := mem h''\<rparr>" by simp
  then show ?case by simp
next
  case (2 a)
  then show ?case by simp
next
  case (3 a)
  then have "mem h'' a = (mem h' a)\<lparr>topbits := topbits (mem h'' a)\<rparr>"
    "mem h' a = (mem h a)\<lparr>topbits := topbits (mem h' a)\<rparr>" by simp_all
  then have "mem h'' a = (mem h a)\<lparr>topbits := topbits (mem h' a)\<rparr>\<lparr>topbits := topbits (mem h'' a)\<rparr>"
    by simp
  then show ?case by simp
qed

lemma tophash_frame_set_tophash: "b \<in> S \<Longrightarrow> tophash_frame S h (set_tophash b i x h)"
  by (simp add: tophash_frame_def set_tophash_def)

lemma tophash_frame_overflow: "tophash_frame S h h' \<Longrightarrow> overflow h' a = overflow h a"
proof -
  assume "tophash_frame S h h'"
  then have "mem h' a = (mem h a)\<lparr>topbits := topbits (mem h' a)\<rparr>" by (simp add: tophash_frame_def)
  then have "overflow_ptr (mem h' a) = overflow_ptr ((mem h a)\<lparr>topbits := topbits (mem h' a)\<rparr>)"
    by simp
  then show ?thesis by (simp add: overflow_def)
qed

lemma tophash_frame_count: "tophash_frame S h h' \<Longrightarrow> count h' = count h"
proof -
  assume "tophash_frame S h h'"
  then have "h' = h\<lparr>mem := mem h'\<rparr>" by (simp add: tophash_frame_def)
  then have "count h' = count (h\<lparr>mem := mem h'\<rparr>)" by simp
  then show ?thesis by simp
qed

lemma tophash_frame_is_chain: "tophash_frame S h h' \<Longrightarrow> is_chain h' b as = is_chain h b as"
  by (rule is_chain_cong) (rule tophash_frame_overflow)

lemma delete_fixup_chain:
  "n < length as \<Longrightarrow> i < bucketCnt \<Longrightarrow> p = bucketCnt * n + i \<Longrightarrow> is_chain h bOrig as \<Longrightarrow>
   \<exists>h'. delete_fixup bOrig (as ! n) i h = Some (Inr (), h') \<and> tophash_frame (set as) h h' \<and>
        chain_tophash h' as = promote (chain_tophash h as) p"
proof (induction p arbitrary: n i h)
  case 0
  then have ni: "n = 0" "i = 0" by (simp_all add: bucketCnt_8)
  from 0 have as: "as \<noteq> []" by auto
  with 0 have b: "as ! 0 = bOrig" using is_chain_hd [of h bOrig as] by (simp add: hd_conv_nth)
  let ?h = "set_tophash bOrig 0 emptyRest h"
  have "delete_fixup bOrig bOrig 0 h = Some (Inr (), ?h)"
    by (subst delete_fixup.simps) (simp add: Let_def)
  moreover from as b have "tophash_frame (set as) h ?h"
    by (intro tophash_frame_set_tophash) (metis nth_mem length_greater_0_conv)
  moreover from 0 as have "chain_tophash (set_tophash (as ! 0) 0 emptyRest h) as =
      (chain_tophash h as)[bucketCnt * 0 + 0 := emptyRest]"
    by (intro chain_tophash_set_tophash is_chain_distinct [of h bOrig]) (simp_all add: bucketCnt_8)
  ultimately show ?case using ni b by simp
next
  case (Suc p)
  let ?xs = "chain_tophash h as"
  let ?b = "as ! n"
  let ?h = "set_tophash ?b i emptyRest h"
  from Suc.prems have d: "distinct as" by (auto dest: is_chain_distinct)
  from Suc.prems have ch: "is_chain ?h bOrig as" by simp
  from Suc.prems have fr: "tophash_frame (set as) h ?h" by (intro tophash_frame_set_tophash) simp
  from Suc.prems d have xs1: "chain_tophash ?h as = ?xs[Suc p := emptyRest]"
    by (simp add: chain_tophash_set_tophash)
  from Suc.prems have b0: "as ! 0 = bOrig" using is_chain_hd [of h bOrig as]
    by (cases as) auto
  from Suc.prems have len: "Suc p < length ?xs" by (simp add: cell_index_bound)
  show ?case
  proof (cases i)
    case 0
    with Suc.prems obtain m where m: "n = Suc m" by (cases n) auto
    with Suc.prems 0 have p: "p = bucketCnt * m + (bucketCnt - 1)" by (simp add: bucketCnt_8)
    from m Suc.prems have l: "Suc m < length as" "0 < length as" by auto
    have "as ! Suc m \<noteq> as ! 0"
      unfolding nth_eq_iff_index_eq [OF d l] by simp
    with m b0 have ne: "?b \<noteq> bOrig" by simp
    from m Suc.prems have fp: "find_prev ?h bOrig ?b = Some (Inr (as ! m))"
      using find_prev_chain [OF ch, of m 0] b0 by simp
    from m Suc.prems have rd: "topbits (mem ?h (as ! m)) (bucketCnt - 1) = chain_tophash ?h as ! p"
      unfolding p by (intro nth_chain_tophash [symmetric]) (simp_all add: bucketCnt_8)
    from len have "p < length ?xs" by simp
    then have rd': "chain_tophash ?h as ! p = ?xs ! p" by (simp add: xs1)
    show ?thesis
    proof (cases "?xs ! p = emptyOne")
      case False
      with rd rd' fp ne 0 have "delete_fixup bOrig ?b i h = Some (Inr (), ?h)"
        by (subst delete_fixup.simps) (simp add: Let_def)
      with fr xs1 False show ?thesis by simp
    next
      case True
      from m Suc.prems have "\<exists>h'. delete_fixup bOrig (as ! m) (bucketCnt - 1) ?h = Some (Inr (), h') \<and>
          tophash_frame (set as) ?h h' \<and> chain_tophash h' as = promote (chain_tophash ?h as) p"
        by (intro Suc.IH ch p) (simp_all add: bucketCnt_8)
      then obtain h' where h': "delete_fixup bOrig (as ! m) (bucketCnt - 1) ?h = Some (Inr (), h')"
        "tophash_frame (set as) ?h h'" "chain_tophash h' as = promote (chain_tophash ?h as) p"
        by blast
      from True rd rd' fp ne 0 h'(1) have "delete_fixup bOrig ?b i h = Some (Inr (), h')"
        by (subst delete_fixup.simps) (simp add: Let_def)
      moreover from fr h'(2) have "tophash_frame (set as) h h'" by (rule tophash_frame_trans)
      ultimately show ?thesis using h'(3) True xs1 by simp
    qed
  next
    case (Suc j)
    with Suc.prems have p: "p = bucketCnt * n + j" and j: "j < bucketCnt" by simp_all
    from Suc.prems j have rd: "topbits (mem ?h ?b) j = chain_tophash ?h as ! p"
      unfolding p by (intro nth_chain_tophash [symmetric]) simp_all
    from len have "p < length ?xs" by simp
    then have rd': "chain_tophash ?h as ! p = ?xs ! p" by (simp add: xs1)
    show ?thesis
    proof (cases "?xs ! p = emptyOne")
      case False
      with rd rd' Suc have "delete_fixup bOrig ?b i h = Some (Inr (), ?h)"
        by (subst delete_fixup.simps) (simp add: Let_def)
      with fr xs1 False show ?thesis by simp
    next
      case True
      from Suc.prems j have "\<exists>h'. delete_fixup bOrig ?b j ?h = Some (Inr (), h') \<and>
          tophash_frame (set as) ?h h' \<and> chain_tophash h' as = promote (chain_tophash ?h as) p"
        by (intro Suc.IH ch p) simp_all
      then obtain h' where h': "delete_fixup bOrig ?b j ?h = Some (Inr (), h')"
        "tophash_frame (set as) ?h h'" "chain_tophash h' as = promote (chain_tophash ?h as) p"
        by blast
      from True rd rd' Suc h'(1) have "delete_fixup bOrig ?b i h = Some (Inr (), h')"
        by (subst delete_fixup.simps) (simp add: Let_def)
      moreover from fr h'(2) have "tophash_frame (set as) h h'" by (rule tophash_frame_trans)
      ultimately show ?thesis using h'(3) True xs1 by simp
    qed
  qed
qed

subsection \<open>Deleting the entry of a cell\<close>

lemma overflow_set_key [simp]: "overflow (set_key b i k h) a = overflow h a"
  by (simp add: overflow_def set_key_def)

lemma overflow_set_elem [simp]: "overflow (set_elem b i v h) a = overflow h a"
  by (simp add: overflow_def set_elem_def)

lemma chain_tophash_set_key [simp]: "chain_tophash (set_key b i k h) as = chain_tophash h as"
  by (rule chain_tophash_cong) (simp add: set_key_def)

lemma chain_tophash_set_elem [simp]: "chain_tophash (set_elem b i v h) as = chain_tophash h as"
  by (rule chain_tophash_cong) (simp add: set_elem_def)

lemma is_chain_set_key [simp]: "is_chain (set_key b i k h) c as = is_chain h c as"
  by (rule is_chain_cong) simp

lemma is_chain_set_elem [simp]: "is_chain (set_elem b i v h) c as = is_chain h c as"
  by (rule is_chain_cong) simp

lemma cell_frame_set_key: "b \<in> S \<Longrightarrow> cell_frame S h (set_key b i k h)"
  by (simp add: cell_frame_def set_key_def overflow_def)

lemma cell_frame_set_elem: "b \<in> S \<Longrightarrow> cell_frame S h (set_elem b i v h)"
  by (simp add: cell_frame_def set_elem_def overflow_def)

lemma cell_frame_set_tophash: "b \<in> S \<Longrightarrow> cell_frame S h (set_tophash b i v h)"
  by (simp add: cell_frame_def set_tophash_def overflow_def)

lemma cell_frame_refl: "cell_frame S h h"
  by (simp add: cell_frame_def)

lemma cell_frame_count: "cell_frame S h (h\<lparr>count := c\<rparr>)"
  by (simp add: cell_frame_def overflow_def)

lemma cell_frame_trans: "cell_frame S h h' \<Longrightarrow> cell_frame S h' h'' \<Longrightarrow> cell_frame S h h''"
  unfolding cell_frame_def
proof (intro conjI allI impI, goal_cases)
  case 1
  then have "h'' = h'\<lparr>mem := mem h'', count := count h''\<rparr>" "h' = h\<lparr>mem := mem h', count := count h'\<rparr>"
    by simp_all
  then have "h'' = h\<lparr>mem := mem h', count := count h'\<rparr>\<lparr>mem := mem h'', count := count h''\<rparr>"
    by simp
  then show ?case by simp
next
  case (2 a)
  then show ?case by simp
next
  case (3 a)
  then show ?case by simp
qed

lemma tophash_frame_cell_frame: "tophash_frame S h h' \<Longrightarrow> cell_frame S h h'"
proof -
  assume f: "tophash_frame S h h'"
  then have "h' = h\<lparr>mem := mem h'\<rparr>" by (simp add: tophash_frame_def)
  then have "count h' = count (h\<lparr>mem := mem h'\<rparr>)" by simp
  then have "h\<lparr>mem := mem h', count := count h'\<rparr> = h\<lparr>mem := mem h'\<rparr>" by simp
  with f show ?thesis by (simp add: cell_frame_def tophash_frame_def tophash_frame_overflow [OF f])
qed

lemma cell_frame_is_chain: "cell_frame S h h' \<Longrightarrow> is_chain h' b as = is_chain h b as"
  by (rule is_chain_cong) (simp add: cell_frame_def)

lemma delete_cell_chain:
  assumes c: "is_chain h bOrig as" and n: "n < length as" and i: "i < bucketCnt"
    and sc: "short_circuit (chain_tophash h as)" and rm: "rest_maximal (chain_tophash h as)"
  shows "\<exists>h'. delete_cell t bOrig (as ! n) i h = Some (Inr (), h') \<and>
           cell_frame (set as) h h' \<and> count h' = count h - 1 \<and>
           chain_tophash h' as = delete_tophash (chain_tophash h as) (bucketCnt * n + i)"
proof -
  let ?b = "as ! n"
  let ?p = "bucketCnt * n + i"
  let ?xs = "chain_tophash h as"
  define h1 where "h1 = (if indirectkey t then set_key ?b i (key_zero t) h
                         else if key_ptrdata t \<noteq> 0 then set_key ?b i (key_zero t) h else h)"
  define h2 where "h2 = set_elem ?b i (elem_zero t) h1"
  define h3 where "h3 = set_tophash ?b i emptyOne h2"
  define notLast where "notLast = (if i = bucketCnt - 1
      then overflow h3 ?b \<noteq> 0 \<and> topbits (mem h3 (overflow h3 ?b)) 0 \<noteq> emptyRest
      else topbits (mem h3 ?b) (i + 1) \<noteq> emptyRest)"
  have dc: "delete_cell t bOrig ?b i h =
      Option.bind (if notLast then Some (Inr (), h3) else delete_fixup bOrig ?b i h3)
        (\<lambda>r. case r of (Inl e, h) \<Rightarrow> Some (Inl e, h)
                      | (Inr u, h) \<Rightarrow> Some (Inr (), h\<lparr>count := count h - 1\<rparr>))"
    by (simp add: delete_cell_def h1_def h2_def h3_def notLast_def Let_def)
  from n have bS: "?b \<in> set as" by simp
  from c have d: "distinct as" by (rule is_chain_distinct)
  have xs1: "chain_tophash h1 as = ?xs" by (simp add: h1_def)
  have c3: "is_chain h3 bOrig as" using c by (simp add: h1_def h2_def h3_def)
  have xs3: "chain_tophash h3 as = ?xs[?p := emptyOne]"
    using d n i by (simp add: h3_def h2_def chain_tophash_set_tophash xs1)
  have f1: "cell_frame (set as) h h1" using bS by (simp add: h1_def cell_frame_set_key cell_frame_refl)
  have f2: "cell_frame (set as) h1 h2" using bS by (simp add: h2_def cell_frame_set_elem)
  have f3: "cell_frame (set as) h2 h3" using bS by (simp add: h3_def cell_frame_set_tophash)
  have f: "cell_frame (set as) h h3" by (rule cell_frame_trans [OF cell_frame_trans [OF f1 f2] f3])
  have cnt: "count h3 = count h"
    by (simp add: h3_def h2_def h1_def set_tophash_def set_elem_def set_key_def)
  from n i have len: "?p < length ?xs" by (simp add: cell_index_bound)
  have nl: "notLast = (?p + 1 < length ?xs \<and> ?xs ! (?p + 1) \<noteq> emptyRest)"
  proof (cases "i = bucketCnt - 1")
    case True
    show ?thesis
    proof (cases "Suc n < length as")
      case lt: True
      with c3 have ov: "overflow h3 ?b = as ! Suc n" by (intro is_chain_nth)
      from c3 lt have nz: "as ! Suc n \<noteq> 0" by (intro is_chain_nth_nonzero)
      from True have p1: "bucketCnt * Suc n + 0 = ?p + 1" by (simp add: bucketCnt_8)
      from lt have "bucketCnt * Suc n + 0 < bucketCnt * length as"
        by (intro cell_index_bound) (simp_all add: bucketCnt_8)
      then have lt1: "?p + 1 < length ?xs" unfolding p1 by simp
      from lt have "topbits (mem h3 (as ! Suc n)) 0 = chain_tophash h3 as ! (bucketCnt * Suc n + 0)"
        by (intro nth_chain_tophash [symmetric]) (simp_all add: bucketCnt_8)
      also have "\<dots> = ?xs[?p := emptyOne] ! (?p + 1)" unfolding p1 xs3 ..
      also have "\<dots> = ?xs ! (?p + 1)" by (rule nth_list_update_neq) simp
      finally have "topbits (mem h3 (as ! Suc n)) 0 = ?xs ! (?p + 1)" .
      note this lt1
      with True ov nz show ?thesis by (simp add: notLast_def)
    next
      case False
      with n have l: "Suc n = length as" by simp
      with n have "last as = ?b" by (cases as rule: rev_cases) (simp_all add: nth_append)
      moreover from n have "as \<noteq> []" by auto
      ultimately have "overflow h3 ?b = 0" using is_chain_last [OF c3] by simp
      moreover from True l have "\<not> ?p + 1 < length ?xs" by (simp add: bucketCnt_8)
      ultimately show ?thesis using True by (simp add: notLast_def)
    qed
  next
    case False
    with i have i1: "i + 1 < bucketCnt" by simp
    have p1: "bucketCnt * n + (i + 1) = ?p + 1" by simp
    from n i1 have "bucketCnt * n + (i + 1) < bucketCnt * length as" by (rule cell_index_bound)
    then have lt1: "?p + 1 < length ?xs" unfolding p1 by simp
    from n i1 have "topbits (mem h3 ?b) (i + 1) = chain_tophash h3 as ! (bucketCnt * n + (i + 1))"
      by (intro nth_chain_tophash [symmetric])
    also have "\<dots> = ?xs[?p := emptyOne] ! (?p + 1)" unfolding p1 xs3 ..
    also have "\<dots> = ?xs ! (?p + 1)" by (rule nth_list_update_neq) simp
    finally have "topbits (mem h3 ?b) (i + 1) = ?xs ! (?p + 1)" .
    note this lt1
    with False show ?thesis by (simp add: notLast_def)
  qed
  then have dec: "list_all isEmpty (drop (?p + 1) ?xs) = (\<not> notLast)"
    using next_cell_decides [OF sc rm, of ?p] by simp
  show ?thesis
  proof (cases notLast)
    case True
    with dc have "delete_cell t bOrig ?b i h = Some (Inr (), h3\<lparr>count := count h3 - 1\<rparr>)" by simp
    moreover have "cell_frame (set as) h (h3\<lparr>count := count h3 - 1\<rparr>)"
      by (rule cell_frame_trans [OF f cell_frame_count])
    moreover have "chain_tophash (h3\<lparr>count := count h3 - 1\<rparr>) as = chain_tophash h3 as"
      by (rule chain_tophash_cong) simp
    moreover from True dec have "delete_tophash ?xs ?p = ?xs[?p := emptyOne]"
      by (simp add: delete_tophash_notLast)
    ultimately show ?thesis using xs3 cnt by simp
  next
    case False
    from n i c3 obtain h4 where h4: "delete_fixup bOrig ?b i h3 = Some (Inr (), h4)"
      "tophash_frame (set as) h3 h4" "chain_tophash h4 as = promote (chain_tophash h3 as) ?p"
      using delete_fixup_chain [of n as i ?p h3 bOrig] by blast
    from False dc h4(1)
    have "delete_cell t bOrig ?b i h = Some (Inr (), h4\<lparr>count := count h4 - 1\<rparr>)" by simp
    moreover have f4: "cell_frame (set as) h h4"
      by (rule cell_frame_trans [OF f tophash_frame_cell_frame [OF h4(2)]])
    then have "cell_frame (set as) h (h4\<lparr>count := count h4 - 1\<rparr>)"
      by (rule cell_frame_trans [OF _ cell_frame_count])
    moreover have "chain_tophash (h4\<lparr>count := count h4 - 1\<rparr>) as = chain_tophash h4 as"
      by (rule chain_tophash_cong) simp
    moreover from h4(2) have "count h4 = count h3" by (rule tophash_frame_count)
    moreover from len have "promote (?xs[?p := emptyOne]) ?p = delete_tophash ?xs ?p"
      using False dec by (simp add: promote_closed delete_tophash_def Let_def)
    ultimately show ?thesis using xs3 cnt h4(3) by simp
  qed
qed
section \<open>Overflow buckets\<close>


lemma same_header_refl [simp]: "same_header h h"
  by (simp add: same_header_def)










section \<open>The cells of a chain\<close>

lemma length_chain_cells [simp]: "length (chain_cells h as) = bucketCnt * length as"
  by (induction as) (simp_all add: chain_cells_def)

lemma chain_cells_Nil [simp]: "chain_cells h [] = []"
  by (simp add: chain_cells_def)




lemma chain_tophash_append: "chain_tophash h (as @ bs) = chain_tophash h as @ chain_tophash h bs"
  by (simp add: chain_tophash_def)





section \<open>Moving an entry to its destination\<close>










section \<open>Evacuating a chain\<close>









lemma keys_set_tophash [simp]: "keys (mem (set_tophash a j x h) b) = keys (mem h b)"
  by (simp add: set_tophash_def)

lemma elems_set_tophash [simp]: "elems (mem (set_tophash a j x h) b) = elems (mem h b)"
  by (simp add: set_tophash_def)

lemma elems_set_key [simp]: "elems (mem (set_key a j x h) b) = elems (mem h b)"
  by (simp add: set_key_def)

lemma brk_set_tophash [simp]: "brk (set_tophash a j x h) = brk h"
  by (simp add: set_tophash_def)

subsection \<open>One cell\<close>


lemma next_pool_set_tophash [simp]: "next_pool (set_tophash b i m h) = next_pool h"
  by (simp add: next_pool_def set_tophash_def)










subsection \<open>One bucket, and the chain\<close>



subsection \<open>The whole of \<^verbatim>\<open>evacuate\<close>\<close>




subsection \<open>Where an entry goes\<close>





section \<open>Keys that are not equal to themselves\<close>




end
